theory Spec2Isabelle
  imports Main "HOL-Library.Word"
begin

section \<open>DataBuffer: a growable typed buffer on top of a memory pool\<close>

text \<open>
  A shallow embedding of \<^verbatim>\<open>velox/dwio/common/DataBuffer.h\<close>.

  \<^item> The class \<^verbatim>\<open>DataBuffer<T>\<close> is the record \<open>DataBuffer\<close> with the five fields of the
    class (\<open>m_buf\<close> for \<^verbatim>\<open>buf_\<close>, and so on); \<^verbatim>\<open>uint64_t\<close> is \<open>64 word\<close>, so every \<open>+\<close>,
    \<open>-\<close> and \<open>*\<close> wraps around as in C++, and \<open>div\<close> and \<open>\<le>\<close> are unsigned.
  \<^item> Pointers are natural numbers, \<open>0\<close> is \<^verbatim>\<open>nullptr\<close>. The memory is an explicit store:
    it maps the base pointer of a block and an element index to the element kept there.
    A \<^verbatim>\<open>const T*\<close> argument is a pair of a base pointer and an index.
  \<^item> \<^verbatim>\<open>sizeof(T)\<close> is the parameter \<open>s\<close> of every operation that needs it.
  \<^item> The memory pool is outside of the class. What a call to the pool returns is an
    argument of the operation that makes the call (the record \<open>reply\<close>: the pointer, and
    the content of the cells that the pool does not initialise), so that a statement
    for all replies holds for every pool; the calls made are logged in the field
    \<open>calls\<close> of the world.
  \<^item> \<^verbatim>\<open>VELOX_CHECK\<close>, \<^verbatim>\<open>VELOX_CHECK_NOT_NULL\<close>, \<^verbatim>\<open>VELOX_CHECK_GE\<close>, \<^verbatim>\<open>VELOX_CHECK_LT\<close> and
    \<^verbatim>\<open>VELOX_FAIL\<close> throw: each is an \<open>Inl\<close> result with an error of its own, and the state
    that a throwing call leaves behind is not kept.
  \<^item> The store does not record how many bytes a block has. An access outside of the
    block, which is undefined behaviour in C++, reads or writes the cell all the same.
    The statements about contents below are for sizes that fit in \<open>2 ^ 64\<close> bytes.
\<close>

subsection \<open>Data model\<close>

type_synonym u64 = "64 word"
type_synonym addr = nat
type_synonym pointer = "addr \<times> nat"
type_synonym 'a memory = "addr \<Rightarrow> nat \<Rightarrow> 'a"

text \<open>The four entry points of \<^verbatim>\<open>velox::memory::MemoryPool\<close> that the class calls.\<close>

datatype pool_call =
    AllocateZeroFilled u64 u64
  | Allocate u64
  | Reallocate addr u64 u64
  | Free addr u64

text \<open>What the pool hands back: the pointer, and what uninitialised cells hold.\<close>

record 'a reply =
  ptr :: addr
  fresh :: "nat \<Rightarrow> 'a"

text \<open>\<^verbatim>\<open>velox::Buffer\<close>, as far as the class reads it: \<^verbatim>\<open>as<T>()\<close> and \<^verbatim>\<open>size()\<close> (in bytes).\<close>

record Buffer =
  as_ptr :: addr
  size_bytes :: u64

record DataBuffer =
  m_pool :: addr
  m_veloxRef :: "Buffer option"
  m_buf :: addr
  m_size :: u64
  m_capacity :: u64

record 'a world =
  heap :: "'a memory"
  calls :: "(addr \<times> pool_call) list"

datatype error =
    AllocationFailed
  | NullBuffer
  | ReferencedBuffer
  | InsufficientSource
  | OutOfRange

subsection \<open>Memory primitives\<close>

definition sizeInBytes :: "u64 \<Rightarrow> u64 \<Rightarrow> u64" where
  "sizeInBytes s items = s * items"

definition capacityInBytes :: "u64 \<Rightarrow> DataBuffer \<Rightarrow> u64" where
  "capacityInBytes s b = sizeInBytes s (m_capacity b)"

text \<open>Element \<open>j\<close> of a block lies wholly within its first \<open>n\<close> bytes.\<close>

definition covered :: "u64 \<Rightarrow> u64 \<Rightarrow> nat \<Rightarrow> bool" where
  "covered s n j \<longleftrightarrow> (j + 1) * unat s \<le> unat n"

text \<open>A block that the pool returned; nothing is stored through \<^verbatim>\<open>nullptr\<close>.\<close>

definition store_block :: "addr \<Rightarrow> (nat \<Rightarrow> 'a) \<Rightarrow> 'a memory \<Rightarrow> 'a memory" where
  "store_block p f m = (if p = 0 then m else m(p := f))"

text \<open>
  \<^verbatim>\<open>std::memset(d, 0, n)\<close> and \<^verbatim>\<open>std::memcpy(d, src, n)\<close> with \<open>n\<close> in bytes, read on whole
  elements: an element is written when all of its bytes are.
\<close>

definition memset0 :: "u64 \<Rightarrow> pointer \<Rightarrow> u64 \<Rightarrow> 'a::zero memory \<Rightarrow> 'a memory" where
  "memset0 s d n m =
     (case d of (p, off) \<Rightarrow>
        m(p := (\<lambda>i. if off \<le> i \<and> covered s n (i - off) then 0 else m p i)))"

definition memcpy :: "u64 \<Rightarrow> pointer \<Rightarrow> pointer \<Rightarrow> u64 \<Rightarrow> 'a memory \<Rightarrow> 'a memory" where
  "memcpy s d src n m =
     (case d of (p, off) \<Rightarrow> case src of (q, soff) \<Rightarrow>
        m(p := (\<lambda>i. if off \<le> i \<and> covered s n (i - off) then m q (soff + (i - off)) else m p i)))"

subsection \<open>Construction, move, destruction\<close>

definition DataBuffer_new ::
  "u64 \<Rightarrow> 'a::zero reply \<Rightarrow> addr \<Rightarrow> u64 \<Rightarrow> 'a world \<Rightarrow> error + (DataBuffer \<times> 'a world)" where
  "DataBuffer_new s r pool n w =
     (let bytes = sizeInBytes s n;
          b = \<lparr>m_pool = pool, m_veloxRef = None, m_buf = ptr r, m_size = n, m_capacity = n\<rparr>;
          w' = w\<lparr>heap := store_block (ptr r)
                    (\<lambda>i. if covered s bytes i then 0 else fresh r i) (heap w),
                 calls := calls w @ [(pool, AllocateZeroFilled 1 bytes)]\<rparr>
      in if m_buf b \<noteq> 0 \<or> m_size b = 0 then Inr (b, w') else Inl AllocationFailed)"

text \<open>
  The private constructor behind \<^verbatim>\<open>wrap\<close>. It dereferences the \<^verbatim>\<open>BufferPtr\<close> as it is, so
  the argument is a buffer, not a pointer that may be null. \<^verbatim>\<open>wrap\<close> hands the instance
  out as a pointer to \<^verbatim>\<open>const\<close>; the operations below take it all the same, as the checks
  of \<^verbatim>\<open>veloxRef_\<close> in \<^verbatim>\<open>reserve\<close> and \<^verbatim>\<open>clear\<close> provide for.
\<close>

definition wrap :: "u64 \<Rightarrow> Buffer \<Rightarrow> DataBuffer" where
  "wrap s buffer =
     (let n = size_bytes buffer div s
      in \<lparr>m_pool = 0, m_veloxRef = Some buffer, m_buf = as_ptr buffer, m_size = n, m_capacity = n\<rparr>)"

text \<open>The move constructor: the new instance, and what is left of \<open>other\<close>.\<close>

definition move :: "DataBuffer \<Rightarrow> DataBuffer \<times> DataBuffer" where
  "move other =
     (\<lparr>m_pool = m_pool other, m_veloxRef = m_veloxRef other, m_buf = m_buf other,
       m_size = m_size other, m_capacity = m_capacity other\<rparr>,
      other\<lparr>m_buf := 0, m_size := 0, m_capacity := 0\<rparr>)"

definition clear :: "u64 \<Rightarrow> DataBuffer \<times> 'a world \<Rightarrow> DataBuffer \<times> 'a world" where
  "clear s bw =
     (case bw of (b, w) \<Rightarrow>
        (b\<lparr>m_size := 0, m_capacity := 0, m_buf := 0\<rparr>,
         if m_veloxRef b = None \<and> m_buf b \<noteq> 0
         then w\<lparr>calls := calls w @ [(m_pool b, Free (m_buf b) (sizeInBytes s (m_capacity b)))]\<rparr>
         else w))"

definition destroy :: "u64 \<Rightarrow> DataBuffer \<times> 'a world \<Rightarrow> DataBuffer \<times> 'a world" where
  "destroy s bw = clear s bw"

subsection \<open>Access\<close>

definition at_index :: "u64 \<Rightarrow> DataBuffer \<times> 'a world \<Rightarrow> error + 'a" where
  "at_index i bw =
     (case bw of (b, w) \<Rightarrow>
        if i < m_size b then Inr (heap w (m_buf b) (unat i)) else Inl OutOfRange)"

subsection \<open>Capacity\<close>

definition reserve ::
  "u64 \<Rightarrow> 'a reply \<Rightarrow> u64 \<Rightarrow> DataBuffer \<times> 'a world \<Rightarrow> error + (DataBuffer \<times> 'a world)" where
  "reserve s r capacity bw =
     (case bw of (b, w) \<Rightarrow>
        if capacity \<le> m_capacity b then
          (if m_buf b = 0 then Inl NullBuffer else Inr (b, w))
        else if m_veloxRef b \<noteq> None then Inl ReferencedBuffer
        else
          let newSize = sizeInBytes s capacity;
              w' = (if m_buf b = 0
                    then w\<lparr>heap := store_block (ptr r) (fresh r) (heap w),
                           calls := calls w @ [(m_pool b, Allocate newSize)]\<rparr>
                    else w\<lparr>heap := store_block (ptr r)
                             (\<lambda>i. if covered s (min (capacityInBytes s b) newSize) i
                                  then heap w (m_buf b) i else fresh r i) (heap w),
                           calls := calls w @
                             [(m_pool b, Reallocate (m_buf b) (capacityInBytes s b) newSize)]\<rparr>)
          in if ptr r \<noteq> 0 \<or> newSize = 0
             then Inr (b\<lparr>m_buf := ptr r, m_capacity := capacity\<rparr>, w')
             else Inl AllocationFailed)"

definition extend ::
  "u64 \<Rightarrow> 'a reply \<Rightarrow> u64 \<Rightarrow> DataBuffer \<times> 'a world \<Rightarrow> error + (DataBuffer \<times> 'a world)" where
  "extend s r n bw =
     (case bw of (b, w) \<Rightarrow>
        let newSize = m_size b + n
        in if newSize > m_capacity b
           then reserve s r (newSize + ((newSize + 1) div 2) + 1) (b, w)
           else Inr (b, w))"

definition resize ::
  "u64 \<Rightarrow> 'a::zero reply \<Rightarrow> u64 \<Rightarrow> DataBuffer \<times> 'a world \<Rightarrow> error + (DataBuffer \<times> 'a world)" where
  "resize s r n bw =
     (case reserve s r n bw of
        Inl e \<Rightarrow> Inl e
      | Inr (b, w) \<Rightarrow>
          Inr (b\<lparr>m_size := n\<rparr>,
               if n > m_size b
               then w\<lparr>heap := memset0 s (m_buf b, unat (m_size b))
                                (sizeInBytes s (n - m_size b)) (heap w)\<rparr>
               else w))"

subsection \<open>Writing\<close>

text \<open>The three overloads of \<^verbatim>\<open>unsafeAppend\<close>: at an offset, at the end, one value.\<close>

definition unsafeAppend ::
  "u64 \<Rightarrow> u64 \<Rightarrow> pointer \<Rightarrow> u64 \<Rightarrow> DataBuffer \<times> 'a world \<Rightarrow> DataBuffer \<times> 'a world" where
  "unsafeAppend s offset src items bw =
     (case bw of (b, w) \<Rightarrow>
        (b\<lparr>m_size := offset + items\<rparr>,
         if items > 0
         then w\<lparr>heap := memcpy s (m_buf b, unat offset) src (sizeInBytes s items) (heap w)\<rparr>
         else w))"

definition unsafeAppend_end ::
  "u64 \<Rightarrow> pointer \<Rightarrow> u64 \<Rightarrow> DataBuffer \<times> 'a world \<Rightarrow> DataBuffer \<times> 'a world" where
  "unsafeAppend_end s src items bw =
     (case bw of (b, w) \<Rightarrow>
        if items > 0
        then (b\<lparr>m_size := m_size b + items\<rparr>,
              w\<lparr>heap := memcpy s (m_buf b, unat (m_size b)) src (sizeInBytes s items) (heap w)\<rparr>)
        else (b, w))"

definition unsafeAppend_value :: "'a \<Rightarrow> DataBuffer \<times> 'a world \<Rightarrow> DataBuffer \<times> 'a world" where
  "unsafeAppend_value v bw =
     (case bw of (b, w) \<Rightarrow>
        (b\<lparr>m_size := m_size b + 1\<rparr>,
         w\<lparr>heap := (heap w)(m_buf b := (heap w (m_buf b))(unat (m_size b) := v))\<rparr>))"

text \<open>The three overloads of \<^verbatim>\<open>append\<close>: from a pointer, from another buffer, one value.\<close>

definition append_ptr ::
  "u64 \<Rightarrow> 'a reply \<Rightarrow> u64 \<Rightarrow> pointer \<Rightarrow> u64 \<Rightarrow> DataBuffer \<times> 'a world
     \<Rightarrow> error + (DataBuffer \<times> 'a world)" where
  "append_ptr s r offset src items bw =
     (case reserve s r (offset + items) bw of
        Inl e \<Rightarrow> Inl e
      | Inr bw' \<Rightarrow> Inr (unsafeAppend s offset src items bw'))"

definition append_buffer ::
  "u64 \<Rightarrow> 'a reply \<Rightarrow> u64 \<Rightarrow> DataBuffer \<Rightarrow> u64 \<Rightarrow> u64 \<Rightarrow> DataBuffer \<times> 'a world
     \<Rightarrow> error + (DataBuffer \<times> 'a world)" where
  "append_buffer s r offset src srcOffset items bw =
     (if m_size src \<ge> srcOffset + items
      then append_ptr s r offset (m_buf src, unat srcOffset) items bw
      else Inl InsufficientSource)"

definition append_value ::
  "u64 \<Rightarrow> 'a reply \<Rightarrow> 'a \<Rightarrow> DataBuffer \<times> 'a world \<Rightarrow> error + (DataBuffer \<times> 'a world)" where
  "append_value s r v bw =
     (case bw of (b, w) \<Rightarrow>
        (case (if m_size b \<ge> m_capacity b
               then reserve s r (m_capacity b + ((m_capacity b + 1) div 2) + 1) (b, w)
               else Inr (b, w)) of
           Inl e \<Rightarrow> Inl e
         | Inr bw' \<Rightarrow> Inr (unsafeAppend_value v bw')))"

definition safeSet ::
  "u64 \<Rightarrow> 'a reply \<Rightarrow> u64 \<Rightarrow> 'a \<Rightarrow> DataBuffer \<times> 'a world \<Rightarrow> error + (DataBuffer \<times> 'a world)" where
  "safeSet s r offset v bw =
     (case bw of (b, w) \<Rightarrow>
        (case (if offset \<ge> m_capacity b
               then reserve s r
                      (max (offset + 1) (m_capacity b + ((m_capacity b + 1) div 2) + 1)) (b, w)
               else Inr (b, w)) of
           Inl e \<Rightarrow> Inl e
         | Inr (b', w') \<Rightarrow>
             Inr (if offset \<ge> m_size b' then b'\<lparr>m_size := offset + 1\<rparr> else b',
                  w'\<lparr>heap := (heap w')(m_buf b' := (heap w' (m_buf b'))(unat offset := v))\<rparr>)))"

definition extendAppend ::
  "u64 \<Rightarrow> 'a reply \<Rightarrow> u64 \<Rightarrow> pointer \<Rightarrow> u64 \<Rightarrow> DataBuffer \<times> 'a world
     \<Rightarrow> error + (DataBuffer \<times> 'a world)" where
  "extendAppend s r offset src items bw =
     (case bw of (b, w) \<Rightarrow>
        (let newSize = offset + items
         in (case (if newSize > m_capacity b
                   then reserve s r (newSize + ((newSize + 1) div 2) + 1) (b, w)
                   else Inr (b, w)) of
               Inl e \<Rightarrow> Inl e
             | Inr bw' \<Rightarrow> Inr (unsafeAppend s offset src items bw'))))"

subsection \<open>Sequences of operations\<close>

text \<open>
  The public operations that act on an existing instance. \<open>MoveInto\<close> goes on with the
  instance that the move constructor builds, \<open>MoveFrom\<close> with the instance moved from.
\<close>

datatype 'a operation =
    Reserve u64
  | Resize u64
  | Extend u64
  | AppendBuffer u64 DataBuffer u64 u64
  | AppendPtr u64 pointer u64
  | AppendValue 'a
  | ExtendAppend u64 pointer u64
  | SafeSet u64 'a
  | Clear
  | MoveInto
  | MoveFrom

fun step ::
  "u64 \<Rightarrow> 'a::zero reply \<Rightarrow> 'a operation \<Rightarrow> DataBuffer \<times> 'a world
     \<Rightarrow> error + (DataBuffer \<times> 'a world)" where
  "step s r (Reserve n) bw = reserve s r n bw"
| "step s r (Resize n) bw = resize s r n bw"
| "step s r (Extend n) bw = extend s r n bw"
| "step s r (AppendBuffer offset src srcOffset items) bw =
     append_buffer s r offset src srcOffset items bw"
| "step s r (AppendPtr offset src items) bw = append_ptr s r offset src items bw"
| "step s r (AppendValue v) bw = append_value s r v bw"
| "step s r (ExtendAppend offset src items) bw = extendAppend s r offset src items bw"
| "step s r (SafeSet offset v) bw = safeSet s r offset v bw"
| "step s r Clear bw = Inr (clear s bw)"
| "step s r MoveInto bw = Inr (fst (move (fst bw)), snd bw)"
| "step s r MoveFrom bw = Inr (snd (move (fst bw)), snd bw)"

text \<open>A sequence stops at the first call that throws.\<close>

fun run ::
  "u64 \<Rightarrow> ('a::zero reply \<times> 'a operation) list \<Rightarrow> DataBuffer \<times> 'a world
     \<Rightarrow> error + (DataBuffer \<times> 'a world)" where
  "run s [] bw = Inr bw"
| "run s (c # cs) bw =
     (case step s (fst c) (snd c) bw of Inl e \<Rightarrow> Inl e | Inr bw' \<Rightarrow> run s cs bw')"

subsection \<open>Notions of the specification\<close>

text \<open>The growth policy as the specification writes it, on unbounded numbers.\<close>

definition growth :: "nat \<Rightarrow> nat" where
  "growth m = m + (m + 1) div 2 + 1"

text \<open>The two invariants of the specification's data model, as it states them.\<close>

definition spec_invariant :: "DataBuffer \<Rightarrow> bool" where
  "spec_invariant b \<longleftrightarrow>
     0 \<le> m_size b \<and> m_size b \<le> m_capacity b \<and> ((m_buf b = 0) = (m_capacity b = 0))"

text \<open>What the class keeps: of the second invariant, one direction only.\<close>

definition invariant :: "DataBuffer \<Rightarrow> bool" where
  "invariant b \<longleftrightarrow> m_size b \<le> m_capacity b \<and> (m_buf b = 0 \<longrightarrow> m_capacity b = 0)"

text \<open>
  The capacity that an operation asks \<^verbatim>\<open>reserve\<close> for, on unbounded numbers, and the
  condition that this capacity and its size in bytes are below \<open>2 ^ 64\<close>, so that no
  \<^verbatim>\<open>uint64_t\<close> of the operation wraps around.
\<close>

fun requested :: "'a operation \<Rightarrow> DataBuffer \<Rightarrow> nat" where
  "requested (Reserve n) b = unat n"
| "requested (Resize n) b = unat n"
| "requested (Extend n) b = growth (unat (m_size b) + unat n)"
| "requested (AppendBuffer offset src srcOffset items) b = unat offset + unat items"
| "requested (AppendPtr offset src items) b = unat offset + unat items"
| "requested (AppendValue v) b = growth (unat (m_capacity b))"
| "requested (ExtendAppend offset src items) b = growth (unat offset + unat items)"
| "requested (SafeSet offset v) b = max (unat offset + 1) (growth (unat (m_capacity b)))"
| "requested Clear b = 0"
| "requested MoveInto b = 0"
| "requested MoveFrom b = 0"

definition fits :: "u64 \<Rightarrow> 'a operation \<Rightarrow> DataBuffer \<Rightarrow> bool" where
  "fits s c b \<longleftrightarrow> unat s * requested c b < 2 ^ 64"

fun all_fit ::
  "u64 \<Rightarrow> ('a::zero reply \<times> 'a operation) list \<Rightarrow> DataBuffer \<times> 'a world \<Rightarrow> bool" where
  "all_fit s [] bw = True"
| "all_fit s (c # cs) bw =
     (fits s (snd c) (fst bw) \<and>
      (case step s (fst c) (snd c) bw of Inl e \<Rightarrow> True | Inr bw' \<Rightarrow> all_fit s cs bw'))"

subsection \<open>Examples\<close>

text \<open>
  A memory of \<^verbatim>\<open>int32_t\<close> cells where the cell \<open>i\<close> of the block at \<open>p\<close> holds \<open>p + i\<close>, a
  pool that returns the block at 4096 with 85 in its uninitialised cells, a
  \<^verbatim>\<open>velox::Buffer\<close> of twelve bytes at 64, and four instances: three that own the block
  at 16 or none, and one that owns the block at 128.
\<close>

definition example_world :: "32 word world" where
  "example_world = \<lparr>heap = (\<lambda>p i. of_nat (p + i)), calls = []\<rparr>"

definition example_reply :: "32 word reply" where
  "example_reply = \<lparr>ptr = 4096, fresh = (\<lambda>i. 85)\<rparr>"

definition example_buffer :: Buffer where
  "example_buffer = \<lparr>as_ptr = 64, size_bytes = 12\<rparr>"

definition example_owned :: DataBuffer where
  "example_owned = \<lparr>m_pool = 1, m_veloxRef = None, m_buf = 16, m_size = 3, m_capacity = 8\<rparr>"

definition example_empty :: DataBuffer where
  "example_empty = \<lparr>m_pool = 1, m_veloxRef = None, m_buf = 0, m_size = 0, m_capacity = 0\<rparr>"

definition example_full :: DataBuffer where
  "example_full = \<lparr>m_pool = 1, m_veloxRef = None, m_buf = 16, m_size = 8, m_capacity = 8\<rparr>"

definition example_source :: DataBuffer where
  "example_source = \<lparr>m_pool = 1, m_veloxRef = None, m_buf = 128, m_size = 5, m_capacity = 5\<rparr>"

text \<open>Calls on the examples: a growing and a shrinking resize, a growing extend, a sparse set.\<close>

definition example_resized :: "error + (DataBuffer \<times> 32 word world)" where
  "example_resized = resize 4 example_reply 20 (example_owned, example_world)"

definition example_shrunk :: "error + (DataBuffer \<times> 32 word world)" where
  "example_shrunk = resize 4 example_reply 2 (example_owned, example_world)"

definition example_extended :: "error + (DataBuffer \<times> 32 word world)" where
  "example_extended = extend 4 example_reply 10 (example_owned, example_world)"

definition example_set :: "error + (DataBuffer \<times> 32 word world)" where
  "example_set = safeSet 4 example_reply 100 42 (example_empty, example_world)"

definition example_appended :: "error + (DataBuffer \<times> 32 word world)" where
  "example_appended =
     append_buffer 4 example_reply 6 example_source 1 4 (example_owned, example_world)"

text \<open>A sequence of calls on the empty buffer, and a \<^verbatim>\<open>velox::Buffer\<close> of three bytes.\<close>

definition example_calls :: "(32 word reply \<times> 32 word operation) list" where
  "example_calls =
     [(example_reply, AppendValue 7), (example_reply, SafeSet 10 42),
      (example_reply, Resize 2), (example_reply, MoveInto)]"

definition example_short_buffer :: Buffer where
  "example_short_buffer = \<lparr>as_ptr = 64, size_bytes = 3\<rparr>"

section \<open>Properties\<close>

subsection \<open>Arithmetic of sizes\<close>

lemma unat_plus1: "unat m + 1 < 2 ^ 64 \<Longrightarrow> unat (m + 1 :: u64) = unat m + 1"
  by (simp add: unat_word_ariths)

lemma unat_growth:
  fixes m :: u64
  assumes "growth (unat m) < 2 ^ 64"
  shows "unat (m + ((m + 1) div 2) + 1) = growth (unat m)"
proof -
  from assms have a: "unat m + 1 < 2 ^ 64" by (simp add: growth_def)
  have 1: "unat (m + 1) = unat m + 1" using a by (rule unat_plus1)
  have 2: "unat ((m + 1) div 2) = (unat m + 1) div 2" by (simp add: unat_div 1)
  have 3: "unat (m + ((m + 1) div 2)) = unat m + (unat m + 1) div 2"
    using assms 2 by (simp add: unat_word_ariths growth_def)
  show ?thesis using assms 3 by (simp add: unat_word_ariths growth_def)
qed

lemma growth_gt:
  fixes m :: u64
  assumes "growth (unat m) < 2 ^ 64"
  shows "m < m + ((m + 1) div 2) + 1"
  using unat_growth [OF assms] by (simp add: word_less_nat_alt growth_def)

lemma unat_sizeInBytes:
  "unat s * unat n < 2 ^ 64 \<Longrightarrow> unat (sizeInBytes s (n :: u64)) = unat s * unat n"
  by (simp add: sizeInBytes_def unat_word_ariths)

lemma sizeInBytes_eq_0:
  assumes "s \<noteq> 0" "unat s * unat n < 2 ^ 64" "sizeInBytes s (n :: u64) = 0"
  shows "n = 0"
proof -
  have "unat s * unat n = 0" using unat_sizeInBytes [OF assms(2)] assms(3) by simp
  moreover have "unat s \<noteq> 0" using assms(1) by (simp add: unat_eq_0)
  ultimately show ?thesis by (simp add: unat_eq_0)
qed

lemma covered_sizeInBytes:
  assumes "s \<noteq> 0" "unat s * unat n < 2 ^ 64"
  shows "covered s (sizeInBytes s (n :: u64)) j \<longleftrightarrow> j < unat n"
proof -
  have p: "0 < unat s" using assms(1) by (simp add: unat_gt_0)
  have "(j + 1) * unat s \<le> unat s * unat n \<longleftrightarrow> j + 1 \<le> unat n"
    using p mult_le_cancel2 [of "j + 1" "unat s" "unat n"] by (simp add: mult.commute)
  then show ?thesis
    by (auto simp: covered_def unat_sizeInBytes [OF assms(2)])
qed

lemma growth_ge: "m < growth m"
  by (simp add: growth_def)

lemma unat_sum:
  fixes a b :: u64
  shows "unat a + unat b < 2 ^ 64 \<Longrightarrow> unat (a + b) = unat a + unat b"
  by (simp add: unat_word_ariths)

lemma unat_max: "unat (max a b :: u64) = max (unat a) (unat b)"
  by (simp add: max_def word_le_nat_alt)

lemma grow_target:
  fixes m c :: u64
  assumes "unat c < unat m" "growth (unat m) < 2 ^ 64"
  shows "c < m + ((m + 1) div 2) + 1" "unat (m + ((m + 1) div 2) + 1) = growth (unat m)"
proof -
  show 2: "unat (m + ((m + 1) div 2) + 1) = growth (unat m)" using assms(2) by (rule unat_growth)
  have "unat m < growth (unat m)" by (rule growth_ge)
  then show "c < m + ((m + 1) div 2) + 1" using assms(1) 2 by (simp add: word_less_nat_alt)
qed

lemma safeSet_target:
  fixes offset c :: u64
  assumes "c \<le> offset" "unat offset + 1 < 2 ^ 64"
  shows "c < max (offset + 1) g"
proof -
  have "unat (offset + 1) = unat offset + 1" using assms(2) by (rule unat_plus1)
  then have "c < offset + 1" using assms(1) by (simp add: word_less_nat_alt word_le_nat_alt)
  then show ?thesis by (simp add: less_max_iff_disj)
qed

subsection \<open>What \<^verbatim>\<open>reserve\<close> does\<close>

lemma reserve_cases:
  assumes "reserve s r c (b, w) = Inr (b', w')"
  shows "(c \<le> m_capacity b \<and> m_buf b \<noteq> 0 \<and> b' = b \<and> w' = w)
       \<or> (m_capacity b < c \<and> m_veloxRef b = None
            \<and> (ptr r \<noteq> 0 \<or> sizeInBytes s c = 0)
            \<and> b' = b\<lparr>m_buf := ptr r, m_capacity := c\<rparr>
            \<and> heap w' = store_block (ptr r)
                  (\<lambda>i. if m_buf b \<noteq> 0 \<and> covered s (min (capacityInBytes s b) (sizeInBytes s c)) i
                       then heap w (m_buf b) i else fresh r i) (heap w))"
  using assms by (auto simp: reserve_def Let_def split: if_splits)

lemma reserve_returns:
  assumes "m_veloxRef b = None" "ptr r \<noteq> 0" "m_capacity b < c \<or> m_buf b \<noteq> 0"
  shows "\<exists>b' w'. reserve s r c (b, w) = Inr (b', w')"
  using assms by (auto simp: reserve_def Let_def)

lemma reserve_grows:
  assumes "m_veloxRef b = None" "ptr r \<noteq> 0" "m_capacity b < c"
  shows "\<exists>w'. reserve s r c (b, w) = Inr (b\<lparr>m_buf := ptr r, m_capacity := c\<rparr>, w')"
  using assms by (auto simp: reserve_def Let_def)

subsection \<open>The capacity after a growing call\<close>

lemma extend_growth:
  assumes own: "m_veloxRef b = None" and p: "ptr r \<noteq> 0"
    and trig: "unat (m_capacity b) < unat (m_size b) + unat n"
    and fit: "growth (unat (m_size b) + unat n) < 2 ^ 64"
  shows "\<exists>b' w'. extend s r n (b, w) = Inr (b', w') \<and>
           unat (m_capacity b') = growth (unat (m_size b) + unat n)"
proof -
  let ?m = "m_size b + n"
  have "unat (m_size b) + unat n < growth (unat (m_size b) + unat n)" by (rule growth_ge)
  then have m: "unat ?m = unat (m_size b) + unat n" using fit by (simp add: unat_sum)
  have lt: "m_capacity b < ?m" using trig m by (simp add: word_less_nat_alt)
  have f: "growth (unat ?m) < 2 ^ 64" using fit m by simp
  have c: "unat (m_capacity b) < unat ?m" using trig m by simp
  note g = grow_target [OF c f]
  obtain w' where "reserve s r (?m + ((?m + 1) div 2) + 1) (b, w)
      = Inr (b\<lparr>m_buf := ptr r, m_capacity := ?m + ((?m + 1) div 2) + 1\<rparr>, w')"
    using reserve_grows [OF own p g(1)] by blast
  then show ?thesis using lt g(2) m by (simp add: extend_def Let_def)
qed

lemma extendAppend_growth:
  assumes own: "m_veloxRef b = None" and p: "ptr r \<noteq> 0"
    and trig: "unat (m_capacity b) < unat offset + unat items"
    and fit: "growth (unat offset + unat items) < 2 ^ 64"
  shows "\<exists>b' w'. extendAppend s r offset src items (b, w) = Inr (b', w') \<and>
           unat (m_capacity b') = growth (unat offset + unat items)"
proof -
  let ?m = "offset + items"
  have "unat offset + unat items < growth (unat offset + unat items)" by (rule growth_ge)
  then have m: "unat ?m = unat offset + unat items" using fit by (simp add: unat_sum)
  have lt: "m_capacity b < ?m" using trig m by (simp add: word_less_nat_alt)
  have f: "growth (unat ?m) < 2 ^ 64" using fit m by simp
  have c: "unat (m_capacity b) < unat ?m" using trig m by simp
  note g = grow_target [OF c f]
  obtain w' where "reserve s r (?m + ((?m + 1) div 2) + 1) (b, w)
      = Inr (b\<lparr>m_buf := ptr r, m_capacity := ?m + ((?m + 1) div 2) + 1\<rparr>, w')"
    using reserve_grows [OF own p g(1)] by blast
  then show ?thesis using lt g(2) m by (simp add: extendAppend_def unsafeAppend_def Let_def)
qed

lemma append_value_growth:
  assumes own: "m_veloxRef b = None" and p: "ptr r \<noteq> 0"
    and trig: "m_capacity b \<le> m_size b"
    and fit: "growth (unat (m_capacity b)) < 2 ^ 64"
  shows "\<exists>b' w'. append_value s r v (b, w) = Inr (b', w') \<and>
           unat (m_capacity b') = growth (unat (m_capacity b))"
proof -
  let ?c = "m_capacity b"
  have g: "?c < ?c + ((?c + 1) div 2) + 1" using fit by (rule growth_gt)
  obtain w' where "reserve s r (?c + ((?c + 1) div 2) + 1) (b, w)
      = Inr (b\<lparr>m_buf := ptr r, m_capacity := ?c + ((?c + 1) div 2) + 1\<rparr>, w')"
    using reserve_grows [OF own p g] by blast
  then show ?thesis using trig unat_growth [OF fit]
    by (simp add: append_value_def unsafeAppend_value_def)
qed

lemma safeSet_growth:
  assumes own: "m_veloxRef b = None" and p: "ptr r \<noteq> 0"
    and trig: "m_capacity b \<le> offset"
    and fo: "unat offset + 1 < 2 ^ 64"
    and fit: "growth (unat (m_capacity b)) < 2 ^ 64"
  shows "\<exists>b' w'. safeSet s r offset v (b, w) = Inr (b', w') \<and>
           unat (m_capacity b') = max (unat offset + 1) (growth (unat (m_capacity b)))"
proof -
  let ?c = "m_capacity b"
  let ?t = "max (offset + 1) (?c + ((?c + 1) div 2) + 1)"
  have g: "?c < ?t" using trig fo by (rule safeSet_target)
  have u: "unat ?t = max (unat offset + 1) (growth (unat ?c))"
    using unat_growth [OF fit] unat_plus1 [OF fo] by (simp add: unat_max)
  obtain w' where "reserve s r ?t (b, w) = Inr (b\<lparr>m_buf := ptr r, m_capacity := ?t\<rparr>, w')"
    using reserve_grows [OF own p g] by blast
  then show ?thesis using trig u
    by (auto simp: safeSet_def)
qed

lemma reserve_size: "reserve s r c (b, w) = Inr (b', w') \<Longrightarrow> m_size b' = m_size b"
  by (auto dest: reserve_cases)

lemma reserve_capacity_ge: "reserve s r c (b, w) = Inr (b', w') \<Longrightarrow> c \<le> m_capacity b'"
  by (auto dest: reserve_cases)

lemma reserve_capacity_mono:
  "reserve s r c (b, w) = Inr (b', w') \<Longrightarrow> m_capacity b \<le> m_capacity b'"
  by (auto dest!: reserve_cases)

lemma reserve_capacity_eq:
  "reserve s r c (b, w) = Inr (b', w') \<Longrightarrow> m_capacity b < c \<Longrightarrow> m_capacity b' = c"
  by (auto dest!: reserve_cases)


lemma covered_min: "covered s (min a b) j \<longleftrightarrow> covered s a j \<and> covered s b j"
  by (auto simp: covered_def min_def word_le_nat_alt)

lemma store_block_same: "p \<noteq> 0 \<Longrightarrow> store_block p f m p = f"
  by (simp add: store_block_def)

lemma store_block_other: "q \<noteq> p \<Longrightarrow> store_block p f m q = m q"
  by (simp add: store_block_def)

lemma fits_le:
  fixes a c :: u64
  assumes "a \<le> c" "unat s * unat c < 2 ^ 64"
  shows "unat s * unat a < 2 ^ 64"
proof -
  have "unat a \<le> unat c" using assms(1) by (simp add: word_le_nat_alt)
  then have "unat s * unat a \<le> unat s * unat c" by (rule mult_le_mono2)
  then show ?thesis using assms(2) by (rule le_less_trans)
qed

lemma reserve_content:
  assumes res: "reserve s r c (b, w) = Inr (b', w')"
    and inv: "invariant b" and s: "s \<noteq> 0" and fit: "unat s * unat c < 2 ^ 64"
    and i: "i < unat (m_capacity b)"
  shows "heap w' (m_buf b') i = heap w (m_buf b) i"
proof -
  consider (same) "b' = b" "w' = w"
    | (grown) "m_capacity b < c" "ptr r \<noteq> 0 \<or> sizeInBytes s c = 0"
        "b' = b\<lparr>m_buf := ptr r, m_capacity := c\<rparr>"
        "heap w' = store_block (ptr r)
                  (\<lambda>i. if m_buf b \<noteq> 0 \<and> covered s (min (capacityInBytes s b) (sizeInBytes s c)) i
                       then heap w (m_buf b) i else fresh r i) (heap w)"
    using reserve_cases [OF res] by blast
  then show ?thesis
  proof cases
    case same
    then show ?thesis by simp
  next
    case grown
    note lt = grown(1) and p = grown(2) and b' = grown(3) and h = grown(4)
  have "c \<noteq> 0" using lt by auto
  then have pr: "ptr r \<noteq> 0" using p sizeInBytes_eq_0 [OF s fit] by blast
  have "m_capacity b \<noteq> 0" using i by (auto simp: unat_gt_0)
  then have nb: "m_buf b \<noteq> 0" using inv by (auto simp: invariant_def)
  have fitb: "unat s * unat (m_capacity b) < 2 ^ 64"
    using fits_le [OF _ fit, of "m_capacity b"] lt by simp
  have ic: "i < unat c" using i lt by (simp add: word_less_nat_alt)
  have cov: "covered s (min (capacityInBytes s b) (sizeInBytes s c)) i"
    using i ic
    by (simp add: covered_min capacityInBytes_def covered_sizeInBytes [OF s fit]
        covered_sizeInBytes [OF s fitb])
  show ?thesis using h b' nb cov by (simp add: store_block_same [OF pr])
  qed
qed

lemma reserve_other:
  assumes res: "reserve s r c (b, w) = Inr (b', w')" and "q \<noteq> ptr r"
  shows "heap w' q = heap w q"
  using reserve_cases [OF res] assms(2) by (auto simp: store_block_other)

lemma reserve_fields:
  assumes res: "reserve s r c (b, w) = Inr (b', w')"
  shows "m_pool b' = m_pool b" "m_veloxRef b' = m_veloxRef b"
  using reserve_cases [OF res] by auto

lemma reserve_invariant:
  assumes res: "reserve s r c (b, w) = Inr (b', w')"
    and inv: "invariant b" and s: "s \<noteq> 0" and fit: "unat s * unat c < 2 ^ 64"
  shows "invariant b'"
proof -
  consider (same) "b' = b"
    | (grown) "m_capacity b < c" "ptr r \<noteq> 0 \<or> sizeInBytes s c = 0"
        "b' = b\<lparr>m_buf := ptr r, m_capacity := c\<rparr>"
    using reserve_cases [OF res] by blast
  then show ?thesis
  proof cases
    case same
    then show ?thesis using inv by simp
  next
    case grown
    note lt = grown(1) and p = grown(2) and b' = grown(3)
  have "c \<noteq> 0" using lt by auto
  then have pr: "ptr r \<noteq> 0" using p sizeInBytes_eq_0 [OF s fit] by blast
  have "m_size b \<le> c" using inv lt by (auto simp: invariant_def)
  then show ?thesis using b' pr by (simp add: invariant_def)
  qed
qed

subsection \<open>What \<^verbatim>\<open>safeSet\<close> does\<close>

lemma safeSet_stay:
  "\<not> m_capacity b \<le> offset \<Longrightarrow>
     safeSet s r offset v (b, w) =
       Inr (if m_size b \<le> offset then b\<lparr>m_size := offset + 1\<rparr> else b,
            w\<lparr>heap := (heap w)(m_buf b := (heap w (m_buf b))(unat offset := v))\<rparr>)"
  by (simp add: safeSet_def)

lemma safeSet_grow:
  "m_capacity b \<le> offset \<Longrightarrow>
     reserve s r (max (offset + 1) (m_capacity b + ((m_capacity b + 1) div 2) + 1)) (b, w)
       = Inr (b1, w1) \<Longrightarrow>
     safeSet s r offset v (b, w) =
       Inr (if m_size b1 \<le> offset then b1\<lparr>m_size := offset + 1\<rparr> else b1,
            w1\<lparr>heap := (heap w1)(m_buf b1 := (heap w1 (m_buf b1))(unat offset := v))\<rparr>)"
  by (simp add: safeSet_def)

lemma safeSet_grow_Inr:
  assumes "m_capacity b \<le> offset" "safeSet s r offset v (b, w) = Inr (b', w')"
  obtains b1 w1 where
     "reserve s r (max (offset + 1) (m_capacity b + ((m_capacity b + 1) div 2) + 1)) (b, w)
       = Inr (b1, w1)"
proof (cases "reserve s r (max (offset + 1) (m_capacity b + ((m_capacity b + 1) div 2) + 1)) (b, w)")
  case (Inl e)
  then show ?thesis using assms by (simp add: safeSet_def)
next
  case (Inr bw)
  then show ?thesis using that by (cases bw) simp
qed



lemma safeSet_post:
  assumes res: "safeSet s r offset v (b, w) = Inr (b', w')"
  shows "heap w' (m_buf b') (unat offset) = v"
    and "m_size b \<le> offset \<Longrightarrow> m_size b' = offset + 1"
    and "\<not> m_size b \<le> offset \<Longrightarrow> m_size b' = m_size b"
    and "\<not> m_capacity b \<le> offset \<Longrightarrow> m_capacity b' = m_capacity b \<and> m_buf b' = m_buf b"
    and "m_capacity b \<le> offset \<Longrightarrow> unat offset + 1 < 2 ^ 64 \<Longrightarrow>
          m_capacity b' = max (offset + 1) (m_capacity b + ((m_capacity b + 1) div 2) + 1)"
proof -
  let ?t = "max (offset + 1) (m_capacity b + ((m_capacity b + 1) div 2) + 1)"
  consider (stay) "\<not> m_capacity b \<le> offset"
    | (grow) b1 w1 where "m_capacity b \<le> offset" "reserve s r ?t (b, w) = Inr (b1, w1)"
    using safeSet_grow_Inr [OF _ res] by blast
  note split = this
  have eq_stay: "(b', w') = (if m_size b \<le> offset then b\<lparr>m_size := offset + 1\<rparr> else b,
            w\<lparr>heap := (heap w)(m_buf b := (heap w (m_buf b))(unat offset := v))\<rparr>)"
    if "\<not> m_capacity b \<le> offset"
    using safeSet_stay [OF that, of s r v w] res by simp
  have eq_grow: "(b', w') = (if m_size b1 \<le> offset then b1\<lparr>m_size := offset + 1\<rparr> else b1,
            w1\<lparr>heap := (heap w1)(m_buf b1 := (heap w1 (m_buf b1))(unat offset := v))\<rparr>)"
    if "m_capacity b \<le> offset" "reserve s r ?t (b, w) = Inr (b1, w1)" for b1 w1
    using safeSet_grow [OF that, of v] res by simp
  show "heap w' (m_buf b') (unat offset) = v"
  proof (cases rule: split)
    case stay
    show ?thesis using eq_stay [OF stay] by (simp split: if_splits)
  next
    case (grow b1 w1)
    show ?thesis using eq_grow [OF grow] by (simp split: if_splits)
  qed
  show "m_size b' = offset + 1" if "m_size b \<le> offset"
  proof (cases rule: split)
    case stay
    show ?thesis using eq_stay [OF stay] that by simp
  next
    case (grow b1 w1)
    show ?thesis using eq_grow [OF grow] that reserve_size [OF grow(2)] by simp
  qed
  show "m_size b' = m_size b" if "\<not> m_size b \<le> offset"
  proof (cases rule: split)
    case stay
    show ?thesis using eq_stay [OF stay] that by simp
  next
    case (grow b1 w1)
    show ?thesis using eq_grow [OF grow] that reserve_size [OF grow(2)] by simp
  qed
  show "m_capacity b' = m_capacity b \<and> m_buf b' = m_buf b" if "\<not> m_capacity b \<le> offset"
    using eq_stay [OF that] by (simp split: if_splits)
  show "m_capacity b' = ?t" if t: "m_capacity b \<le> offset" and f: "unat offset + 1 < 2 ^ 64"
  proof (cases rule: split)
    case stay
    then show ?thesis using t by simp
  next
    case (grow b1 w1)
    show ?thesis
      using reserve_capacity_eq [OF grow(2) safeSet_target [OF t f]] eq_grow [OF grow]
      by (simp split: if_splits)
  qed
qed

lemma safeSet_returns:
  assumes own: "m_veloxRef b = None" and p: "ptr r \<noteq> 0" and f: "unat offset + 1 < 2 ^ 64"
  shows "\<exists>b' w'. safeSet s r offset v (b, w) = Inr (b', w')"
proof (cases "m_capacity b \<le> offset")
  case True
  obtain w1 where g: "reserve s r (max (offset + 1) (m_capacity b + ((m_capacity b + 1) div 2) + 1)) (b, w)
     = Inr (b\<lparr>m_buf := ptr r, m_capacity := max (offset + 1) (m_capacity b + ((m_capacity b + 1) div 2) + 1)\<rparr>, w1)"
    using reserve_grows [OF own p safeSet_target [OF True f]] by blast
  show ?thesis unfolding safeSet_grow [OF True g] by blast
next
  case False
  show ?thesis unfolding safeSet_stay [OF False] by blast
qed

lemma safeSet_example:
  assumes own: "m_veloxRef b = None" and p: "ptr r \<noteq> 0" and e: "m_size b = 0"
  shows "\<exists>b' w'. safeSet s r 100 v (b, w) = Inr (b', w') \<and> m_size b' = 101 \<and>
           at_index 100 (b', w') = Inr v \<and> 101 \<le> m_capacity b'"
proof -
  have f: "unat (100 :: u64) + 1 < 2 ^ 64" by simp
  obtain b' w' where res: "safeSet s r 100 v (b, w) = Inr (b', w')"
    using safeSet_returns [OF own p f] by blast
  have 1: "m_size b' = 101" using safeSet_post(2) [OF res] e by simp
  have 2: "heap w' (m_buf b') 100 = v" using safeSet_post(1) [OF res] by simp
  have 3: "101 \<le> m_capacity b'"
  proof (cases "m_capacity b \<le> 100")
    case True
    show ?thesis using safeSet_post(5) [OF res True f] by simp
  next
    case False
    then have "unat (m_capacity b) > 100" by (simp add: word_le_nat_alt)
    moreover have "m_capacity b' = m_capacity b" using safeSet_post(4) [OF res False] by simp
    ultimately show ?thesis by (simp add: word_le_nat_alt)
  qed
  show ?thesis using res 1 2 3 by (simp add: at_index_def)
qed

subsection \<open>What \<^verbatim>\<open>resize\<close> and \<^verbatim>\<open>extend\<close> do\<close>

lemma resize_Inr:
  assumes "resize s r n (b, w) = Inr (b', w')"
  obtains b1 w1 where "reserve s r n (b, w) = Inr (b1, w1)" "b' = b1\<lparr>m_size := n\<rparr>"
    "w' = (if m_size b1 < n
           then w1\<lparr>heap := memset0 s (m_buf b1, unat (m_size b1))
                              (sizeInBytes s (n - m_size b1)) (heap w1)\<rparr>
           else w1)"
proof (cases "reserve s r n (b, w)")
  case (Inl e)
  then show ?thesis using assms by (simp add: resize_def)
next
  case (Inr bw)
  then show ?thesis using assms that by (cases bw) (auto simp: resize_def)
qed

lemma memset0_read:
  "memset0 s (p, off) n m p i = (if off \<le> i \<and> covered s n (i - off) then 0 else m p i)"
  by (simp add: memset0_def)

lemma unat_diff:
  fixes a b :: u64
  shows "a \<le> b \<Longrightarrow> unat (b - a) = unat b - unat a"
  by (simp add: unat_sub)

lemma resize_length: "resize s r n (b, w) = Inr (b', w') \<Longrightarrow> m_size b' = n \<and> n \<le> m_capacity b'"
  by (erule resize_Inr) (auto dest: reserve_capacity_ge)

lemma resize_zero_fill:
  assumes res: "resize s r n (b, w) = Inr (b', w')"
    and s: "s \<noteq> 0" and fit: "unat s * unat n < 2 ^ 64"
    and i: "unat (m_size b) \<le> i" "i < unat n"
  shows "heap w' (m_buf b') i = 0"
  using res
proof (rule resize_Inr)
  fix b1 w1
  assume r1: "reserve s r n (b, w) = Inr (b1, w1)" and b': "b' = b1\<lparr>m_size := n\<rparr>"
    and w': "w' = (if m_size b1 < n
           then w1\<lparr>heap := memset0 s (m_buf b1, unat (m_size b1))
                              (sizeInBytes s (n - m_size b1)) (heap w1)\<rparr>
           else w1)"
  have sz: "m_size b1 = m_size b" using r1 by (rule reserve_size)
  have lt: "m_size b < n" using i by (simp add: word_less_nat_alt)
  then have le: "m_size b \<le> n" by simp
  have d: "unat (n - m_size b) = unat n - unat (m_size b)" using le by (rule unat_diff)
  have "n - m_size b \<le> n" using le by (rule word_sub_le)
  then have fd: "unat s * unat (n - m_size b) < 2 ^ 64" using fit by (rule fits_le)
  have "covered s (sizeInBytes s (n - m_size b)) (i - unat (m_size b))"
    using i d by (simp add: covered_sizeInBytes [OF s fd])
  then show ?thesis using b' w' sz lt i(1) by (simp add: memset0_read)
qed

lemma resize_keeps:
  assumes res: "resize s r n (b, w) = Inr (b', w')"
    and inv: "invariant b" and s: "s \<noteq> 0" and fit: "unat s * unat n < 2 ^ 64"
    and i: "i < unat (m_size b)"
  shows "heap w' (m_buf b') i = heap w (m_buf b) i"
  using res
proof (rule resize_Inr)
  fix b1 w1
  assume r1: "reserve s r n (b, w) = Inr (b1, w1)" and b': "b' = b1\<lparr>m_size := n\<rparr>"
    and w': "w' = (if m_size b1 < n
           then w1\<lparr>heap := memset0 s (m_buf b1, unat (m_size b1))
                              (sizeInBytes s (n - m_size b1)) (heap w1)\<rparr>
           else w1)"
  have sz: "m_size b1 = m_size b" using r1 by (rule reserve_size)
  have "i < unat (m_capacity b)" using i inv by (simp add: invariant_def word_le_nat_alt)
  then have c: "heap w1 (m_buf b1) i = heap w (m_buf b) i"
    using reserve_content [OF r1 inv s fit] by simp
  show ?thesis using b' w' sz i c by (simp add: memset0_read)
qed

lemma resize_shrink:
  assumes res: "resize s r n (b, w) = Inr (b', w')"
    and le: "n \<le> m_size b" and inv: "m_size b \<le> m_capacity b"
  shows "b' = b\<lparr>m_size := n\<rparr> \<and> w' = w"
  using res
proof (rule resize_Inr)
  fix b1 w1
  assume r1: "reserve s r n (b, w) = Inr (b1, w1)" and b': "b' = b1\<lparr>m_size := n\<rparr>"
    and w': "w' = (if m_size b1 < n
           then w1\<lparr>heap := memset0 s (m_buf b1, unat (m_size b1))
                              (sizeInBytes s (n - m_size b1)) (heap w1)\<rparr>
           else w1)"
  have "n \<le> m_capacity b" using le inv by simp
  then have same: "b1 = b" "w1 = w" using reserve_cases [OF r1] by auto
  have "\<not> m_size b < n" using le by simp
  then show ?thesis using b' w' same by simp
qed

lemma resize_returns:
  assumes own: "m_veloxRef b = None" and p: "ptr r \<noteq> 0"
    and c: "m_capacity b < n \<or> m_buf b \<noteq> 0"
  shows "\<exists>b' w'. resize s r n (b, w) = Inr (b', w')"
proof -
  obtain b1 w1 where "reserve s r n (b, w) = Inr (b1, w1)"
    using reserve_returns [OF own p c] by blast
  then show ?thesis by (simp add: resize_def)
qed

lemma extend_Inr:
  assumes "extend s r n (b, w) = Inr (b', w')"
  shows "(\<not> m_capacity b < m_size b + n \<and> b' = b \<and> w' = w) \<or>
         (m_capacity b < m_size b + n \<and>
          reserve s r ((m_size b + n) + (((m_size b + n) + 1) div 2) + 1) (b, w) = Inr (b', w'))"
  using assms by (simp add: extend_def Let_def split: if_splits)

lemma extend_frame_fields:
  assumes res: "extend s r n (b, w) = Inr (b', w')"
  shows "m_size b' = m_size b \<and> m_pool b' = m_pool b \<and> m_veloxRef b' = m_veloxRef b \<and>
         m_capacity b \<le> m_capacity b'"
  using extend_Inr [OF res]
  by (auto dest: reserve_size reserve_fields reserve_capacity_mono)

lemma fits_growth:
  assumes "s \<noteq> (0 :: u64)" "unat s * growth k < 2 ^ 64"
  shows "growth k < 2 ^ 64"
proof -
  have "0 < unat s" using assms(1) by (simp add: unat_gt_0)
  then have "growth k \<le> unat s * growth k" by simp
  then show ?thesis using assms(2) by (rule le_less_trans)
qed

lemma extend_target:
  assumes fit: "growth (unat (m_size b) + unat n) < 2 ^ 64"
  shows "unat (m_size b + n) = unat (m_size b) + unat n"
    and "unat ((m_size b + n) + (((m_size b + n) + 1) div 2) + 1)
           = growth (unat (m_size b) + unat n)"
proof -
  have "unat (m_size b) + unat n < growth (unat (m_size b) + unat n)" by (rule growth_ge)
  then show m: "unat (m_size b + n) = unat (m_size b) + unat n" using fit by (simp add: unat_sum)
  have f: "growth (unat (m_size b + n)) < 2 ^ 64" using fit m by simp
  show "unat ((m_size b + n) + (((m_size b + n) + 1) div 2) + 1)
           = growth (unat (m_size b) + unat n)"
    using unat_growth [OF f] m by simp
qed

lemma extend_keeps:
  assumes res: "extend s r n (b, w) = Inr (b', w')"
    and inv: "invariant b" and s: "s \<noteq> 0"
    and fit: "unat s * growth (unat (m_size b) + unat n) < 2 ^ 64"
    and i: "i < unat (m_size b)"
  shows "heap w' (m_buf b') i = heap w (m_buf b) i"
proof -
  have ic: "i < unat (m_capacity b)" using i inv by (simp add: invariant_def word_le_nat_alt)
  note t = extend_target [OF fits_growth [OF s fit]]
  consider (same) "b' = b" "w' = w"
    | (grown) "reserve s r ((m_size b + n) + (((m_size b + n) + 1) div 2) + 1) (b, w) = Inr (b', w')"
    using extend_Inr [OF res] by blast
  then show ?thesis
  proof cases
    case same
    then show ?thesis by simp
  next
    case grown
    have "unat s * unat ((m_size b + n) + (((m_size b + n) + 1) div 2) + 1) < 2 ^ 64"
      using fit t(2) by simp
    then show ?thesis using reserve_content [OF grown inv s _ ic] by simp
  qed
qed

lemma extend_grows:
  assumes res: "extend s r n (b, w) = Inr (b', w')"
    and trig: "unat (m_capacity b) < unat (m_size b) + unat n"
    and fit: "growth (unat (m_size b) + unat n) < 2 ^ 64"
  shows "m_capacity b < m_capacity b' \<and>
         unat (m_capacity b') = growth (unat (m_size b) + unat n)"
proof -
  note t = extend_target [OF fit]
  have lt: "m_capacity b < m_size b + n" using trig t(1) by (simp add: word_less_nat_alt)
  then have r1: "reserve s r ((m_size b + n) + (((m_size b + n) + 1) div 2) + 1) (b, w)
      = Inr (b', w')"
    using extend_Inr [OF res] by blast
  have "unat (m_size b) + unat n < growth (unat (m_size b) + unat n)" by (rule growth_ge)
  then have g: "m_capacity b < (m_size b + n) + (((m_size b + n) + 1) div 2) + 1"
    using trig t(2) by (simp add: word_less_nat_alt)
  show ?thesis using reserve_capacity_eq [OF r1 g] g t(2) by simp
qed

lemma extend_enough:
  assumes "unat (m_size b) + unat n \<le> unat (m_capacity b)"
  shows "extend s r n (b, w) = Inr (b, w)"
proof -
  have "unat (m_capacity b) < 2 ^ 64" using unsigned_less [of "m_capacity b"] by simp
  then have "unat (m_size b) + unat n < 2 ^ 64" using assms by simp
  then have "unat (m_size b + n) = unat (m_size b) + unat n" by (rule unat_sum)
  then have "\<not> m_capacity b < m_size b + n" using assms by (simp add: word_less_nat_alt)
  then show ?thesis by (simp add: extend_def Let_def)
qed

lemma extend_returns:
  assumes own: "m_veloxRef b = None" and p: "ptr r \<noteq> 0"
    and fit: "growth (unat (m_size b) + unat n) < 2 ^ 64"
  shows "\<exists>b' w'. extend s r n (b, w) = Inr (b', w')"
proof (cases "unat (m_capacity b) < unat (m_size b) + unat n")
  case True
  then show ?thesis using extend_growth [OF own p True fit] by blast
next
  case False
  then have "extend s r n (b, w) = Inr (b, w)" by (simp add: extend_enough)
  then show ?thesis by blast
qed

subsection \<open>What the bulk \<^verbatim>\<open>append\<close> does\<close>

lemma memcpy_read:
  "memcpy s (p, off) (q, soff) n m p i =
     (if off \<le> i \<and> covered s n (i - off) then m q (soff + (i - off)) else m p i)"
  by (simp add: memcpy_def)

lemma append_ptr_Inr:
  assumes "append_ptr s r offset src items (b, w) = Inr (b', w')"
  obtains b1 w1 where "reserve s r (offset + items) (b, w) = Inr (b1, w1)"
    "b' = b1\<lparr>m_size := offset + items\<rparr>"
    "w' = (if 0 < items
           then w1\<lparr>heap := memcpy s (m_buf b1, unat offset) src (sizeInBytes s items) (heap w1)\<rparr>
           else w1)"
proof (cases "reserve s r (offset + items) (b, w)")
  case (Inl e)
  then show ?thesis using assms by (simp add: append_ptr_def)
next
  case (Inr bw)
  then show ?thesis using assms that by (cases bw) (auto simp: append_ptr_def unsafeAppend_def)
qed

lemma append_ptr_length:
  "append_ptr s r offset src items (b, w) = Inr (b', w') \<Longrightarrow>
     m_size b' = offset + items \<and> offset + items \<le> m_capacity b'"
  by (erule append_ptr_Inr) (auto dest: reserve_capacity_ge)

lemma append_ptr_copies:
  assumes res: "append_ptr s r offset (q, soff) items (b, w) = Inr (b', w')"
    and s: "s \<noteq> 0" and fit: "unat s * unat items < 2 ^ 64"
    and q: "q \<noteq> ptr r" and j: "j < unat items"
  shows "heap w' (m_buf b') (unat offset + j) = heap w q (soff + j)"
  using res
proof (rule append_ptr_Inr)
  fix b1 w1
  assume r1: "reserve s r (offset + items) (b, w) = Inr (b1, w1)"
    and b': "b' = b1\<lparr>m_size := offset + items\<rparr>"
    and w': "w' = (if 0 < items
           then w1\<lparr>heap := memcpy s (m_buf b1, unat offset) (q, soff) (sizeInBytes s items) (heap w1)\<rparr>
           else w1)"
  have pos: "0 < items" using j by (auto simp: word_less_nat_alt)
  have c: "covered s (sizeInBytes s items) j" using j by (simp add: covered_sizeInBytes [OF s fit])
  have "heap w1 q = heap w q" using r1 q by (rule reserve_other)
  then show ?thesis using b' w' pos c by (simp add: memcpy_read)
qed

lemma reserve_fails:
  "(\<exists>e. reserve s r c (b, w) = Inl e) \<longleftrightarrow>
     (c \<le> m_capacity b \<and> m_buf b = 0) \<or>
     (m_capacity b < c \<and> (m_veloxRef b \<noteq> None \<or> (ptr r = 0 \<and> sizeInBytes s c \<noteq> 0)))"
  by (auto simp: reserve_def Let_def)

lemma append_ptr_fails:
  "(\<exists>e. append_ptr s r offset src items (b, w) = Inl e) \<longleftrightarrow>
     (\<exists>e. reserve s r (offset + items) (b, w) = Inl e)"
  by (cases "reserve s r (offset + items) (b, w)") (simp_all add: append_ptr_def)

lemma source_check:
  fixes srcOffset items n :: u64
  assumes "unat srcOffset + unat items < 2 ^ 64"
  shows "srcOffset + items \<le> n \<longleftrightarrow> unat srcOffset + unat items \<le> unat n"
  using unat_sum [OF assms] by (simp add: word_le_nat_alt)


subsection \<open>The invariant along a sequence of calls\<close>

lemma invariant_size: "invariant b \<Longrightarrow> n \<le> m_capacity b \<Longrightarrow> invariant (b\<lparr>m_size := n\<rparr>)"
  by (simp add: invariant_def)

lemma fits_pos:
  assumes "s \<noteq> (0 :: u64)" "unat s * k < 2 ^ 64"
  shows "k < 2 ^ 64"
proof -
  have "0 < unat s" using assms(1) by (simp add: unat_gt_0)
  then have "k \<le> unat s * k" by simp
  then show ?thesis using assms(2) by (rule le_less_trans)
qed

lemma resize_invariant:
  assumes res: "resize s r n (b, w) = Inr (b', w')"
    and inv: "invariant b" and s: "s \<noteq> 0" and fit: "unat s * unat n < 2 ^ 64"
  shows "invariant b'"
  using res
proof (rule resize_Inr)
  fix b1 w1
  assume r1: "reserve s r n (b, w) = Inr (b1, w1)" and b': "b' = b1\<lparr>m_size := n\<rparr>"
  show ?thesis
    unfolding b'
    using reserve_invariant [OF r1 inv s fit] reserve_capacity_ge [OF r1]
    by (rule invariant_size)
qed

lemma extend_invariant:
  assumes res: "extend s r n (b, w) = Inr (b', w')"
    and inv: "invariant b" and s: "s \<noteq> 0"
    and fit: "unat s * growth (unat (m_size b) + unat n) < 2 ^ 64"
  shows "invariant b'"
proof -
  note t = extend_target [OF fits_pos [OF s fit]]
  consider (same) "b' = b"
    | (grown) "reserve s r ((m_size b + n) + (((m_size b + n) + 1) div 2) + 1) (b, w) = Inr (b', w')"
    using extend_Inr [OF res] by blast
  then show ?thesis
  proof cases
    case same
    then show ?thesis using inv by simp
  next
    case grown
    have "unat s * unat ((m_size b + n) + (((m_size b + n) + 1) div 2) + 1) < 2 ^ 64"
      using fit t(2) by simp
    then show ?thesis using reserve_invariant [OF grown inv s] by simp
  qed
qed

lemma append_ptr_invariant:
  assumes res: "append_ptr s r offset src items (b, w) = Inr (b', w')"
    and inv: "invariant b" and s: "s \<noteq> 0"
    and fit: "unat s * (unat offset + unat items) < 2 ^ 64"
  shows "invariant b'"
  using res
proof (rule append_ptr_Inr)
  fix b1 w1
  assume r1: "reserve s r (offset + items) (b, w) = Inr (b1, w1)"
    and b': "b' = b1\<lparr>m_size := offset + items\<rparr>"
  have "unat (offset + items) = unat offset + unat items"
    using fits_pos [OF s fit] by (rule unat_sum)
  then have f: "unat s * unat (offset + items) < 2 ^ 64" using fit by simp
  show ?thesis
    unfolding b'
    using reserve_invariant [OF r1 inv s f] reserve_capacity_ge [OF r1]
    by (rule invariant_size)
qed

lemma append_buffer_invariant:
  assumes res: "append_buffer s r offset src srcOffset items (b, w) = Inr (b', w')"
    and inv: "invariant b" and s: "s \<noteq> 0"
    and fit: "unat s * (unat offset + unat items) < 2 ^ 64"
  shows "invariant b'"
proof -
  have "append_ptr s r offset (m_buf src, unat srcOffset) items (b, w) = Inr (b', w')"
    using res by (simp add: append_buffer_def split: if_splits)
  then show ?thesis using inv s fit by (rule append_ptr_invariant)
qed

lemma unsafeAppend_fields:
  "fst (unsafeAppend s offset src items (b, w)) = b\<lparr>m_size := offset + items\<rparr>"
  by (simp add: unsafeAppend_def)

lemma unsafeAppend_value_fields:
  "fst (unsafeAppend_value v (b, w)) = b\<lparr>m_size := m_size b + 1\<rparr>"
  by (simp add: unsafeAppend_value_def)

lemma succ_le:
  fixes a c :: u64
  assumes "a < c"
  shows "a + 1 \<le> c"
  using assms by (rule inc_le)

lemma append_value_invariant:
  assumes res: "append_value s r v (b, w) = Inr (b', w')"
    and inv: "invariant b" and s: "s \<noteq> 0"
    and fit: "unat s * growth (unat (m_capacity b)) < 2 ^ 64"
  shows "invariant b'"
proof (cases "m_capacity b \<le> m_size b")
  case True
  let ?g = "m_capacity b + ((m_capacity b + 1) div 2) + 1"
  note g = fits_pos [OF s fit]
  have gt: "m_capacity b < ?g" using g by (rule growth_gt)
  have ug: "unat ?g = growth (unat (m_capacity b))" using g by (rule unat_growth)
  have eq: "m_size b = m_capacity b" using True inv by (simp add: invariant_def)
  obtain b1 w1 where r1: "reserve s r ?g (b, w) = Inr (b1, w1)"
    and b': "b' = fst (unsafeAppend_value v (b1, w1))"
    using res True
    by (cases "reserve s r ?g (b, w)") (auto simp: append_value_def)
  have f: "unat s * unat ?g < 2 ^ 64" using fit ug by simp
  have i1: "invariant b1" using r1 inv s f by (rule reserve_invariant)
  have c1: "m_capacity b1 = ?g" using r1 gt by (rule reserve_capacity_eq)
  have s1: "m_size b1 = m_size b" using r1 by (rule reserve_size)
  have "m_size b1 < m_capacity b1" using c1 s1 eq gt by simp
  then have "m_size b1 + 1 \<le> m_capacity b1" by (rule succ_le)
  then show ?thesis using i1 b' by (simp add: unsafeAppend_value_fields invariant_size)
next
  case False
  then have b': "b' = fst (unsafeAppend_value v (b, w))"
    using res by (simp add: append_value_def)
  have "m_size b < m_capacity b" using False by simp
  then have "m_size b + 1 \<le> m_capacity b" by (rule succ_le)
  then show ?thesis using inv b' by (simp add: unsafeAppend_value_fields invariant_size)
qed

lemma extendAppend_invariant:
  assumes res: "extendAppend s r offset src items (b, w) = Inr (b', w')"
    and inv: "invariant b" and s: "s \<noteq> 0"
    and fit: "unat s * growth (unat offset + unat items) < 2 ^ 64"
  shows "invariant b'"
proof (cases "m_capacity b < offset + items")
  case True
  let ?m = "offset + items"
  let ?g = "?m + ((?m + 1) div 2) + 1"
  note g = fits_pos [OF s fit]
  have "unat offset + unat items < growth (unat offset + unat items)" by (rule growth_ge)
  then have m: "unat ?m = unat offset + unat items" using g by (simp add: unat_sum)
  have gm: "growth (unat ?m) < 2 ^ 64" using g m by simp
  have gt: "?m < ?g" using gm by (rule growth_gt)
  have ug: "unat ?g = growth (unat offset + unat items)" using unat_growth [OF gm] m by simp
  obtain b1 w1 where r1: "reserve s r ?g (b, w) = Inr (b1, w1)"
    and b': "b' = fst (unsafeAppend s offset src items (b1, w1))"
    using res True
    by (cases "reserve s r ?g (b, w)") (auto simp: extendAppend_def Let_def)
  have f: "unat s * unat ?g < 2 ^ 64" using fit ug by simp
  have i1: "invariant b1" using r1 inv s f by (rule reserve_invariant)
  have "?g \<le> m_capacity b1" using r1 by (rule reserve_capacity_ge)
  then have "?m \<le> m_capacity b1" using gt by simp
  then show ?thesis using i1 b' by (simp add: unsafeAppend_fields invariant_size)
next
  case False
  then have b': "b' = fst (unsafeAppend s offset src items (b, w))"
    using res by (simp add: extendAppend_def Let_def)
  have "offset + items \<le> m_capacity b" using False by simp
  then show ?thesis using inv b' by (simp add: unsafeAppend_fields invariant_size)
qed

lemma safeSet_invariant:
  assumes res: "safeSet s r offset v (b, w) = Inr (b', w')"
    and inv: "invariant b" and s: "s \<noteq> 0"
    and fit: "unat s * max (unat offset + 1) (growth (unat (m_capacity b))) < 2 ^ 64"
  shows "invariant b'"
proof (cases "m_capacity b \<le> offset")
  case True
  let ?t = "max (offset + 1) (m_capacity b + ((m_capacity b + 1) div 2) + 1)"
  have mx: "max (unat offset + 1) (growth (unat (m_capacity b))) < 2 ^ 64"
    using s fit by (rule fits_pos)
  then have fo: "unat offset + 1 < 2 ^ 64" and g: "growth (unat (m_capacity b)) < 2 ^ 64"
    by simp_all
  have ut: "unat ?t = max (unat offset + 1) (growth (unat (m_capacity b)))"
    using unat_growth [OF g] unat_plus1 [OF fo] by (simp add: unat_max)
  obtain b1 w1 where r1: "reserve s r ?t (b, w) = Inr (b1, w1)"
    using safeSet_grow_Inr [OF True res] by blast
  have f: "unat s * unat ?t < 2 ^ 64" using fit ut by simp
  have i1: "invariant b1" using r1 inv s f by (rule reserve_invariant)
  have "?t \<le> m_capacity b1" using r1 by (rule reserve_capacity_ge)
  then have c: "offset + 1 \<le> m_capacity b1" by simp
  have "b' = (if m_size b1 \<le> offset then b1\<lparr>m_size := offset + 1\<rparr> else b1)"
    using safeSet_grow [OF True r1, of v] res by simp
  then show ?thesis using i1 c by (simp add: invariant_size)
next
  case False
  then have "offset < m_capacity b" by simp
  then have c: "offset + 1 \<le> m_capacity b" by (rule succ_le)
  have "b' = (if m_size b \<le> offset then b\<lparr>m_size := offset + 1\<rparr> else b)"
    using safeSet_stay [OF False, of s r v w] res by simp
  then show ?thesis using inv c by (simp add: invariant_size)
qed

lemma clear_invariant: "invariant (fst (clear s bw))"
  by (cases bw) (simp add: clear_def invariant_def)

lemma move_invariant: "invariant b \<Longrightarrow> invariant (fst (move b)) \<and> invariant (snd (move b))"
  by (simp add: move_def invariant_def)

lemma step_invariant:
  assumes res: "step s r c (b, w) = Inr (b', w')"
    and inv: "invariant b" and s: "s \<noteq> 0" and fit: "fits s c b"
  shows "invariant b'"
proof (cases c)
  case (Reserve n)
  then show ?thesis using res inv s fit by (auto simp: fits_def intro: reserve_invariant)
next
  case (Resize n)
  then show ?thesis using res inv s fit by (auto simp: fits_def intro: resize_invariant)
next
  case (Extend n)
  then show ?thesis using res inv s fit by (auto simp: fits_def intro: extend_invariant)
next
  case (AppendBuffer offset src srcOffset items)
  then show ?thesis using res inv s fit by (auto simp: fits_def intro: append_buffer_invariant)
next
  case (AppendPtr offset src items)
  then show ?thesis using res inv s fit by (auto simp: fits_def intro: append_ptr_invariant)
next
  case (AppendValue v)
  then show ?thesis using res inv s fit by (auto simp: fits_def intro: append_value_invariant)
next
  case (ExtendAppend offset src items)
  then show ?thesis using res inv s fit by (auto simp: fits_def intro: extendAppend_invariant)
next
  case (SafeSet offset v)
  then show ?thesis using res inv s fit by (auto simp: fits_def intro: safeSet_invariant)
next
  case Clear
  then show ?thesis using res clear_invariant [of s "(b, w)"] by auto
next
  case MoveInto
  then show ?thesis using res move_invariant [OF inv] by auto
next
  case MoveFrom
  then show ?thesis using res move_invariant [OF inv] by auto
qed

lemma run_invariant:
  assumes "invariant (fst bw)" and "s \<noteq> 0"
  shows "all_fit s cs bw \<Longrightarrow> run s cs bw = Inr bw' \<Longrightarrow> invariant (fst bw')"
  using assms(1)
proof (induction cs arbitrary: bw)
  case Nil
  then show ?case by simp
next
  case (Cons c cs)
  show ?case
  proof (cases "step s (fst c) (snd c) bw")
    case (Inl e)
    then show ?thesis using Cons.prems by simp
  next
    case (Inr bw1)
    have "invariant (fst bw1)"
      using step_invariant [of s "fst c" "snd c" "fst bw" "snd bw" "fst bw1" "snd bw1"]
        Inr Cons.prems assms(2) by simp
    moreover have "all_fit s cs bw1" "run s cs bw1 = Inr bw'" using Cons.prems Inr by simp_all
    ultimately show ?thesis using Cons.IH by blast
  qed
qed

lemma new_invariant: "DataBuffer_new s r pool n w = Inr (b, w') \<Longrightarrow> invariant b"
  by (auto simp: DataBuffer_new_def Let_def invariant_def split: if_splits)

lemma wrap_invariant: "as_ptr buffer \<noteq> 0 \<Longrightarrow> invariant (wrap s buffer)"
  by (simp add: wrap_def Let_def invariant_def)

lemma all_fit_take: "all_fit s cs bw \<Longrightarrow> all_fit s (take k cs) bw"
proof (induction cs arbitrary: k bw)
  case Nil
  then show ?case by simp
next
  case (Cons c cs)
  show ?case
  proof (cases k)
    case 0
    then show ?thesis by simp
  next
    case (Suc j)
    then show ?thesis using Cons by (auto split: sum.splits)
  qed
qed


lemma example_run3:
  "run 4 (take 3 example_calls) (example_empty, example_world) =
     Inr (projr (run 4 (take 3 example_calls) (example_empty, example_world)))"
  by (simp add: example_calls_def example_empty_def example_reply_def append_value_def
      safeSet_def resize_def reserve_def unsafeAppend_value_def move_def Let_def
      sizeInBytes_def capacityInBytes_def)


lemma example_fit: "all_fit 4 example_calls (example_empty, example_world)"
  by (simp add: example_calls_def example_empty_def example_reply_def append_value_def
      safeSet_def resize_def reserve_def unsafeAppend_value_def move_def Let_def
      sizeInBytes_def capacityInBytes_def fits_def growth_def)


subsection \<open>What the calls leave, for sizes that fit\<close>

lemma reserve_same:
  assumes "reserve s r c (b, w) = Inr (b', w')" "c \<le> m_capacity b"
  shows "b' = b \<and> w' = w \<and> m_buf b \<noteq> 0"
  using reserve_cases [OF assms(1)] assms(2) by auto

lemma reserve_grown_calls:
  assumes "reserve s r c (b, w) = Inr (b', w')" "\<not> c \<le> m_capacity b"
  shows "calls w' = calls w @
           [(m_pool b, if m_buf b = 0 then Allocate (sizeInBytes s c)
                       else Reallocate (m_buf b) (capacityInBytes s b) (sizeInBytes s c))]"
  using assms by (auto simp: reserve_def Let_def split: if_splits)

lemma reserve_grown:
  assumes "reserve s r c (b, w) = Inr (b', w')" "\<not> c \<le> m_capacity b"
  shows "m_capacity b < c \<and> m_veloxRef b = None \<and> (ptr r \<noteq> 0 \<or> sizeInBytes s c = 0) \<and>
         b' = b\<lparr>m_buf := ptr r, m_capacity := c\<rparr> \<and>
         heap w' = store_block (ptr r)
           (\<lambda>i. if m_buf b \<noteq> 0 \<and> covered s (min (capacityInBytes s b) (sizeInBytes s c)) i
                then heap w (m_buf b) i else fresh r i) (heap w)"
  using reserve_cases [OF assms(1)] assms(2) by blast

lemma reserve_fails_fit:
  assumes own: "m_veloxRef b = None" and s: "s \<noteq> 0" and fit: "unat s * unat c < 2 ^ 64"
  shows "(\<exists>e. reserve s r c (b, w) = Inl e) \<longleftrightarrow>
           (c \<le> m_capacity b \<and> m_buf b = 0) \<or> (m_capacity b < c \<and> ptr r = 0)"
proof -
  have "sizeInBytes s c \<noteq> 0" if "m_capacity b < c"
  proof
    assume z: "sizeInBytes s c = 0"
    have "c = 0" using s fit z by (rule sizeInBytes_eq_0)
    then show False using that by simp
  qed
  then show ?thesis unfolding reserve_fails using own by auto
qed

text \<open>What a returning \<^verbatim>\<open>reserve\<close> leaves, for a capacity that fits in \<open>2 ^ 64\<close> bytes.\<close>

lemma reserve_post:
  assumes res: "reserve s r c (b, w) = Inr (b', w')"
    and s: "s \<noteq> 0" and fit: "unat s * unat c < 2 ^ 64"
  shows "m_capacity b' = max (m_capacity b) c \<and>
      m_buf b' = (if c \<le> m_capacity b then m_buf b else ptr r) \<and> m_buf b' \<noteq> 0 \<and>
      m_size b' = m_size b \<and> m_pool b' = m_pool b \<and> m_veloxRef b' = m_veloxRef b \<and>
      calls w' = calls w @
           (if c \<le> m_capacity b then []
            else [(m_pool b, if m_buf b = 0 then Allocate (sizeInBytes s c)
                             else Reallocate (m_buf b) (capacityInBytes s b) (sizeInBytes s c))]) \<and>
      (\<forall>i. unat (m_capacity b) \<le> i \<longrightarrow>
           heap w' (m_buf b') i = (if c \<le> m_capacity b then heap w (m_buf b) i else fresh r i)) \<and>
      (\<forall>p. p \<noteq> m_buf b' \<longrightarrow> heap w' p = heap w p)"
proof -
  have f: "m_size b' = m_size b" "m_pool b' = m_pool b" "m_veloxRef b' = m_veloxRef b"
    using reserve_size [OF res] reserve_fields [OF res] by simp_all
  show ?thesis
  proof (cases "c \<le> m_capacity b")
    case True
    have r: "b' = b" "w' = w" "m_buf b \<noteq> 0" using reserve_same [OF res True] by simp_all
    have "max (m_capacity b) c = m_capacity b" using True by (rule max_absorb1)
    then show ?thesis using r True by simp
  next
    case False
    then have lt: "m_capacity b < c" by simp
    have g: "ptr r \<noteq> 0 \<or> sizeInBytes s c = 0" "b' = b\<lparr>m_buf := ptr r, m_capacity := c\<rparr>"
      "heap w' = store_block (ptr r)
           (\<lambda>i. if m_buf b \<noteq> 0 \<and> covered s (min (capacityInBytes s b) (sizeInBytes s c)) i
                then heap w (m_buf b) i else fresh r i) (heap w)"
      using reserve_grown [OF res False] by simp_all
    note cl = reserve_grown_calls [OF res False]
    have "c \<noteq> 0" using lt by auto
    then have pr: "ptr r \<noteq> 0" using g(1) sizeInBytes_eq_0 [OF s fit] by blast
    have fitb: "unat s * unat (m_capacity b) < 2 ^ 64"
      using fits_le [OF _ fit, of "m_capacity b"] lt by simp
    have above: "heap w' (m_buf b') i = fresh r i" if "unat (m_capacity b) \<le> i" for i
    proof -
      have "\<not> covered s (min (capacityInBytes s b) (sizeInBytes s c)) i"
        using that
        by (simp add: covered_min capacityInBytes_def covered_sizeInBytes [OF s fitb])
      then show ?thesis using g(2,3) by (simp add: store_block_same [OF pr])
    qed
    have other: "heap w' p = heap w p" if "p \<noteq> m_buf b'" for p
      using that g(2,3) by (simp add: store_block_other)
    have "m_capacity b \<le> c" using lt by (rule less_imp_le)
    then have mx: "max (m_capacity b) c = c" by (rule max_absorb2)
    have c1: "m_capacity b' = c" "m_buf b' = ptr r" using g(2) by simp_all
    show ?thesis using c1 mx cl pr False above other f by simp
  qed
qed

lemma memset0_other: "p \<noteq> q \<Longrightarrow> memset0 s (q, off) n m p = m p"
  by (simp add: memset0_def)

lemma resize_fails:
  "(\<exists>e. resize s r n (b, w) = Inl e) \<longleftrightarrow> (\<exists>e. reserve s r n (b, w) = Inl e)"
  by (cases "reserve s r n (b, w)") (auto simp: resize_def)

lemma resize_frame:
  assumes res: "resize s r n (b, w) = Inr (b', w')"
    and inv: "invariant b" and s: "s \<noteq> 0" and fit: "unat s * unat n < 2 ^ 64"
  shows "m_capacity b' = max (m_capacity b) n \<and>
      m_pool b' = m_pool b \<and> m_veloxRef b' = m_veloxRef b \<and>
      m_buf b' = (if n \<le> m_capacity b then m_buf b else ptr r) \<and> m_buf b' \<noteq> 0 \<and>
      calls w' = calls w @
           (if n \<le> m_capacity b then []
            else [(m_pool b, if m_buf b = 0 then Allocate (sizeInBytes s n)
                             else Reallocate (m_buf b) (capacityInBytes s b) (sizeInBytes s n))]) \<and>
      (\<forall>i. unat (m_size b) \<le> i \<and> unat n \<le> i \<longrightarrow>
           heap w' (m_buf b') i = (if n \<le> m_capacity b then heap w (m_buf b) i else fresh r i)) \<and>
      (\<forall>p. p \<noteq> m_buf b' \<longrightarrow> heap w' p = heap w p)"
  using res
proof (rule resize_Inr)
  fix b1 w1
  assume r1: "reserve s r n (b, w) = Inr (b1, w1)" and b': "b' = b1\<lparr>m_size := n\<rparr>"
    and w': "w' = (if m_size b1 < n
           then w1\<lparr>heap := memset0 s (m_buf b1, unat (m_size b1))
                              (sizeInBytes s (n - m_size b1)) (heap w1)\<rparr>
           else w1)"
  note p = reserve_post [OF r1 s fit]
  note kept = reserve_content [OF r1 inv s fit]
  have cl: "calls w' = calls w1" using w' by simp
  have oth: "heap w' q = heap w1 q" if "q \<noteq> m_buf b1" for q
    using w' that by (simp add: memset0_other)
  have sz: "m_size b1 = m_size b" using p by simp
  have ab: "heap w' (m_buf b1) i = heap w1 (m_buf b1) i" if "unat n \<le> i" "unat (m_size b) \<le> i" for i
  proof (cases "m_size b < n")
    case True
    then have le: "m_size b \<le> n" by simp
    have d: "unat (n - m_size b) = unat n - unat (m_size b)" using le by (rule unat_diff)
    have "n - m_size b \<le> n" using le by (rule word_sub_le)
    then have fd: "unat s * unat (n - m_size b) < 2 ^ 64" using fit by (rule fits_le)
    have "\<not> covered s (sizeInBytes s (n - m_size b)) (i - unat (m_size b))"
      using that d by (simp add: covered_sizeInBytes [OF s fd])
    then show ?thesis using w' sz by (simp add: memset0_read)
  next
    case False
    then show ?thesis using w' sz by simp
  qed
  have a2: "heap w1 (m_buf b1) i = (if n \<le> m_capacity b then heap w (m_buf b) i else fresh r i)"
    if "unat n \<le> i" for i
  proof (cases "i < unat (m_capacity b)")
    case True
    then have "n \<le> m_capacity b" using that by (simp add: word_le_nat_alt)
    moreover have "heap w1 (m_buf b1) i = heap w (m_buf b) i" using True by (rule kept)
    ultimately show ?thesis by simp
  next
    case False
    then have "unat (m_capacity b) \<le> i" by simp
    then show ?thesis using p by blast
  qed
  show ?thesis using p b' cl oth ab a2 by simp
qed

lemma resize_below:
  assumes res: "resize s r n (b, w) = Inr (b', w')"
    and inv: "invariant b" and s: "s \<noteq> 0" and fit: "unat s * unat n < 2 ^ 64"
    and i: "i < unat (m_size b)"
  shows "heap w' (m_buf b') i = heap w (m_buf b) i"
  using res
proof (rule resize_Inr)
  fix b1 w1
  assume r1: "reserve s r n (b, w) = Inr (b1, w1)" and b': "b' = b1\<lparr>m_size := n\<rparr>"
    and w': "w' = (if m_size b1 < n
           then w1\<lparr>heap := memset0 s (m_buf b1, unat (m_size b1))
                              (sizeInBytes s (n - m_size b1)) (heap w1)\<rparr>
           else w1)"
  have sz: "m_size b1 = m_size b" using r1 by (rule reserve_size)
  have "i < unat (m_capacity b)" using i inv by (simp add: invariant_def word_le_nat_alt)
  then have c: "heap w1 (m_buf b1) i = heap w (m_buf b) i"
    using reserve_content [OF r1 inv s fit] by simp
  show ?thesis using b' w' sz i c by (simp add: memset0_read)
qed

lemma extend_unfold:
  "extend s r n (b, w) =
     (if m_capacity b < m_size b + n
      then reserve s r ((m_size b + n) + (((m_size b + n) + 1) div 2) + 1) (b, w)
      else Inr (b, w))"
  by (simp add: extend_def Let_def)

lemma safeSet_grow_fails:
  "m_capacity b \<le> offset \<Longrightarrow>
     (\<exists>e. safeSet s r offset v (b, w) = Inl e) \<longleftrightarrow>
     (\<exists>e. reserve s r (max (offset + 1) (m_capacity b + ((m_capacity b + 1) div 2) + 1)) (b, w)
            = Inl e)"
  by (cases "reserve s r (max (offset + 1) (m_capacity b + ((m_capacity b + 1) div 2) + 1)) (b, w)")
    (auto simp: safeSet_def)

lemma safeSet_write:
  assumes eq: "(b', w') = (if m_size b1 \<le> offset then b1\<lparr>m_size := offset + 1\<rparr> else b1,
            w1\<lparr>heap := (heap w1)(m_buf b1 := (heap w1 (m_buf b1))(unat offset := v))\<rparr>)"
    and fo: "unat offset + 1 < 2 ^ 64"
  shows "m_buf b' = m_buf b1 \<and> m_capacity b' = m_capacity b1 \<and> m_pool b' = m_pool b1 \<and>
     m_veloxRef b' = m_veloxRef b1 \<and> calls w' = calls w1 \<and>
     m_size b' = (if m_size b1 \<le> offset then offset + 1 else m_size b1) \<and>
     unat (m_size b') = (if m_size b1 \<le> offset then unat offset + 1 else unat (m_size b1)) \<and>
     heap w' (m_buf b') (unat offset) = v \<and> at_index offset (b', w') = Inr v \<and>
     (\<forall>i. i \<noteq> unat offset \<longrightarrow> heap w' (m_buf b') i = heap w1 (m_buf b1) i) \<and>
     (\<forall>p. p \<noteq> m_buf b' \<longrightarrow> heap w' p = heap w1 p)"
proof -
  have u1: "unat (offset + 1) = unat offset + 1" using fo by (rule unat_plus1)
  then have lt: "offset < offset + 1" by (simp add: word_less_nat_alt)
  have b': "b' = (if m_size b1 \<le> offset then b1\<lparr>m_size := offset + 1\<rparr> else b1)"
    and w': "w' = w1\<lparr>heap := (heap w1)(m_buf b1 := (heap w1 (m_buf b1))(unat offset := v))\<rparr>"
    using eq by simp_all
  have f: "m_buf b' = m_buf b1" "m_capacity b' = m_capacity b1" "m_pool b' = m_pool b1"
    "m_veloxRef b' = m_veloxRef b1"
    "m_size b' = (if m_size b1 \<le> offset then offset + 1 else m_size b1)"
    using b' by simp_all
  have sz: "unat (m_size b') = (if m_size b1 \<le> offset then unat offset + 1 else unat (m_size b1))"
    using f(5) u1 by simp
  have o: "offset < m_size b'" using f(5) lt by (simp add: not_le)
  have h: "heap w' (m_buf b') (unat offset) = v" using f(1) w' by simp
  have a: "at_index offset (b', w') = Inr v" using o h by (simp add: at_index_def)
  have k: "\<forall>i. i \<noteq> unat offset \<longrightarrow> heap w' (m_buf b') i = heap w1 (m_buf b1) i"
    using f(1) w' by simp
  have p: "\<forall>p. p \<noteq> m_buf b' \<longrightarrow> heap w' p = heap w1 p" using f(1) w' by simp
  have c: "calls w' = calls w1" using w' by simp
  show ?thesis using f sz h a k p c by simp
qed

lemma reserve_fails_any:
  assumes s: "s \<noteq> 0" and fit: "unat s * unat c < 2 ^ 64"
  shows "(\<exists>e. reserve s r c (b, w) = Inl e) \<longleftrightarrow>
           (c \<le> m_capacity b \<and> m_buf b = 0) \<or>
           (m_capacity b < c \<and> (m_veloxRef b \<noteq> None \<or> ptr r = 0))"
proof -
  have "sizeInBytes s c \<noteq> 0" if "m_capacity b < c"
  proof
    assume z: "sizeInBytes s c = 0"
    have "c = 0" using s fit z by (rule sizeInBytes_eq_0)
    then show False using that by simp
  qed
  then show ?thesis unfolding reserve_fails by auto
qed

lemma memcpy_other: "p \<noteq> q \<Longrightarrow> memcpy s (q, off) src n m p = m p"
  by (cases src) (simp add: memcpy_def)

lemma unsafeAppend_frame:
  assumes b': "b' = b1\<lparr>m_size := offset + items\<rparr>"
    and w': "w' = (if 0 < items
           then w1\<lparr>heap := memcpy s (m_buf b1, unat offset) (q, soff) (sizeInBytes s items) (heap w1)\<rparr>
           else w1)"
    and s: "s \<noteq> 0" and fit: "unat s * unat items < 2 ^ 64"
  shows "m_buf b' = m_buf b1 \<and> m_capacity b' = m_capacity b1 \<and> m_pool b' = m_pool b1 \<and>
     m_veloxRef b' = m_veloxRef b1 \<and> m_size b' = offset + items \<and> calls w' = calls w1 \<and>
     (\<forall>i. i < unat offset \<or> unat offset + unat items \<le> i \<longrightarrow>
        heap w' (m_buf b') i = heap w1 (m_buf b1) i) \<and>
     (\<forall>p. p \<noteq> m_buf b' \<longrightarrow> heap w' p = heap w1 p)"
proof -
  have f: "m_buf b' = m_buf b1" "m_capacity b' = m_capacity b1" "m_pool b' = m_pool b1"
    "m_veloxRef b' = m_veloxRef b1" "m_size b' = offset + items" "calls w' = calls w1"
    using b' w' by simp_all
  have k: "heap w' (m_buf b') i = heap w1 (m_buf b1) i"
    if "i < unat offset \<or> unat offset + unat items \<le> i" for i
  proof -
    have "\<not> (unat offset \<le> i \<and> covered s (sizeInBytes s items) (i - unat offset))"
      using that by (auto simp: covered_sizeInBytes [OF s fit])
    then have "memcpy s (m_buf b1, unat offset) (q, soff) (sizeInBytes s items) (heap w1)
        (m_buf b1) i = heap w1 (m_buf b1) i"
      unfolding memcpy_read by (rule if_not_P)
    then show ?thesis using b' w' by simp
  qed
  have o: "heap w' p = heap w1 p" if "p \<noteq> m_buf b'" for p
    using that b' w' by (simp add: memcpy_other)
  show ?thesis using f k o by blast
qed


subsection \<open>The claims\<close>

text \<open>
  C1, as the code has it. On a buffer in owning mode, with a pool that returns a non-null
  pointer, and as long as the numbers stay below \<open>2 ^ 64\<close>:
  \<^item> \<^verbatim>\<open>extend(additional)\<close> with \<open>m = length + additional\<close> above the capacity, and
    \<^verbatim>\<open>extendAppend(offset, src, count)\<close> with \<open>m = offset + count\<close> above the capacity,
    return with the capacity \<open>m + (m + 1) div 2 + 1\<close>;
  \<^item> \<^verbatim>\<open>append(value)\<close> on a full buffer returns with the capacity \<open>c + (c + 1) div 2 + 1\<close>
    for the capacity \<open>c\<close> before the call, not for the new length;
  \<^item> \<^verbatim>\<open>safeSet(offset, value)\<close> with \<open>offset\<close> not below the capacity \<open>c\<close> returns with
    the capacity \<open>max (offset + 1) (c + (c + 1) div 2 + 1)\<close>.
\<close>

theorem growth_policy:
  assumes "m_veloxRef b = None" and "ptr r \<noteq> 0"
  shows
    "(unat (m_capacity b) < unat (m_size b) + unat n \<and>
      growth (unat (m_size b) + unat n) < 2 ^ 64 \<longrightarrow>
        (\<exists>b' w'. extend s r n (b, w) = Inr (b', w') \<and>
           unat (m_capacity b') = growth (unat (m_size b) + unat n))) \<and>
     (unat (m_capacity b) < unat offset + unat items \<and>
      growth (unat offset + unat items) < 2 ^ 64 \<longrightarrow>
        (\<exists>b' w'. extendAppend s r offset src items (b, w) = Inr (b', w') \<and>
           unat (m_capacity b') = growth (unat offset + unat items))) \<and>
     (m_capacity b \<le> m_size b \<and> growth (unat (m_capacity b)) < 2 ^ 64 \<longrightarrow>
        (\<exists>b' w'. append_value s r v (b, w) = Inr (b', w') \<and>
           unat (m_capacity b') = growth (unat (m_capacity b)))) \<and>
     (m_capacity b \<le> pos \<and> unat pos + 1 < 2 ^ 64 \<and> growth (unat (m_capacity b)) < 2 ^ 64 \<longrightarrow>
        (\<exists>b' w'. safeSet s r pos v (b, w) = Inr (b', w') \<and>
           unat (m_capacity b') = max (unat pos + 1) (growth (unat (m_capacity b)))))"
  using extend_growth [OF assms] extendAppend_growth [OF assms]
    append_value_growth [OF assms] safeSet_growth [OF assms]
  by blast

theorem growth_policy_witness:
  "m_veloxRef example_full = None \<and> ptr example_reply \<noteq> 0 \<and>
   (\<exists>b' w'. extend 4 example_reply 5 (example_full, example_world) = Inr (b', w') \<and>
      unat (m_capacity b') = 21) \<and>
   (\<exists>b' w'. extendAppend 4 example_reply 9 (64, 0) 4 (example_full, example_world) = Inr (b', w') \<and>
      unat (m_capacity b') = 21) \<and>
   (\<exists>b' w'. append_value 4 example_reply 42 (example_full, example_world) = Inr (b', w') \<and>
      unat (m_capacity b') = 13) \<and>
   (\<exists>b' w'. safeSet 4 example_reply 100 42 (example_full, example_world) = Inr (b', w') \<and>
      unat (m_capacity b') = 101)"
proof -
  have h1: "m_veloxRef example_full = None" by (simp add: example_full_def)
  have h2: "ptr example_reply \<noteq> 0" by (simp add: example_reply_def)
  have c: "m_capacity example_full = 8" "m_size example_full = 8"
    by (simp_all add: example_full_def)
  show ?thesis
    using growth_policy [OF h1 h2, where s = 4 and w = example_world and n = 5
        and offset = 9 and items = 4 and src = "(64, 0)" and v = 42 and pos = 100] h1 h2
    by (simp add: c growth_def)
qed

text \<open>
  C1 as stated fails for \<^verbatim>\<open>append(value)\<close> and for \<^verbatim>\<open>safeSet\<close>. On the empty buffer,
  \<^verbatim>\<open>append(42)\<close> asks for the extent \<open>m = 1\<close> and leaves the capacity 1, not
  \<open>growth 1 = 3\<close>; \<^verbatim>\<open>safeSet(100, 42)\<close> asks for \<open>m = 101\<close> and leaves the capacity 101,
  not \<open>growth 101 = 153\<close>.
\<close>

theorem growth_policy_counterexample:
  "m_veloxRef example_empty = None \<and>
   map_sum id (m_capacity \<circ> fst)
     (append_value 4 example_reply 42 (example_empty, example_world)) = Inr 1 \<and>
   growth (unat (m_size example_empty) + 1) = 3 \<and>
   map_sum id (m_capacity \<circ> fst)
     (safeSet 4 example_reply 100 42 (example_empty, example_world)) = Inr 101 \<and>
   growth (100 + 1) = 153"
  by (simp add: append_value_def safeSet_def reserve_def unsafeAppend_value_def Let_def
      example_empty_def example_reply_def sizeInBytes_def growth_def)


text \<open>
  C3, as the code has it. A call of \<^verbatim>\<open>reserve\<close> with a target capacity that does not
  exceed the capacity first checks that the data pointer is not null. When it is not,
  the call returns with the instance and the world (the memory and the log of calls to
  the pool) as they were; when it is null, as after \<^verbatim>\<open>clear()\<close>, the call throws.
\<close>

theorem reserve_within_capacity:
  "capacity \<le> m_capacity b \<Longrightarrow>
     (m_buf b \<noteq> 0 \<longrightarrow> reserve s r capacity (b, w) = Inr (b, w)) \<and>
     (m_buf b = 0 \<longrightarrow> reserve s r capacity (b, w) = Inl NullBuffer)"
  by (simp add: reserve_def)

theorem reserve_within_capacity_witness:
  "(2 :: u64) \<le> m_capacity example_owned \<and> m_buf example_owned \<noteq> 0 \<and>
   reserve 4 example_reply 2 (example_owned, example_world) = Inr (example_owned, example_world)"
proof -
  have h: "(2 :: u64) \<le> m_capacity example_owned" by (simp add: example_owned_def)
  have n: "m_buf example_owned \<noteq> 0" by (simp add: example_owned_def)
  show ?thesis
    using reserve_within_capacity [OF h, of 4 example_reply example_world] h n by simp
qed

text \<open>
  C3 as stated fails on a freshly cleared buffer: the capacity is 0, the target 0 does
  not exceed it, and \<^verbatim>\<open>reserve(0)\<close> throws.
\<close>

theorem reserve_after_clear_counterexample:
  "m_capacity (fst (clear 4 (example_owned, example_world))) = 0 \<and>
   reserve 4 example_reply 0 (clear 4 (example_owned, example_world)) = Inl NullBuffer"
  by (simp add: reserve_def clear_def example_owned_def)

text \<open>
  C4, as the code has it. On a buffer in aliasing mode, \<^verbatim>\<open>reserve\<close> throws exactly when
  the target exceeds the capacity or the data pointer is null, and is a no-op
  otherwise. Every growth path throws when it asks \<^verbatim>\<open>reserve\<close> for more than the
  capacity.
\<close>

theorem reserve_on_aliasing_buffer:
  assumes "m_veloxRef b \<noteq> None"
  shows
    "reserve s r capacity (b, w) =
       (if capacity \<le> m_capacity b
        then (if m_buf b = 0 then Inl NullBuffer else Inr (b, w))
        else Inl ReferencedBuffer) \<and>
     (m_capacity b < n \<longrightarrow> resize s r n (b, w) = Inl ReferencedBuffer) \<and>
     (m_capacity b < offset + items \<longrightarrow>
        append_ptr s r offset src items (b, w) = Inl ReferencedBuffer) \<and>
     (m_capacity b < m_size b + n \<and>
      m_capacity b < (m_size b + n) + (((m_size b + n) + 1) div 2) + 1 \<longrightarrow>
        extend s r n (b, w) = Inl ReferencedBuffer) \<and>
     (m_capacity b < offset + items \<and>
      m_capacity b < (offset + items) + (((offset + items) + 1) div 2) + 1 \<longrightarrow>
        extendAppend s r offset src items (b, w) = Inl ReferencedBuffer) \<and>
     (m_capacity b \<le> m_size b \<and>
      m_capacity b < m_capacity b + ((m_capacity b + 1) div 2) + 1 \<longrightarrow>
        append_value s r v (b, w) = Inl ReferencedBuffer) \<and>
     (m_capacity b \<le> offset \<and>
      m_capacity b < max (offset + 1) (m_capacity b + ((m_capacity b + 1) div 2) + 1) \<longrightarrow>
        safeSet s r offset v (b, w) = Inl ReferencedBuffer)"
proof -
  have res: "\<And>c. m_capacity b < c \<Longrightarrow> reserve s r c (b, w) = Inl ReferencedBuffer"
    using assms by (auto simp: reserve_def)
  have 1: "reserve s r capacity (b, w) =
       (if capacity \<le> m_capacity b
        then (if m_buf b = 0 then Inl NullBuffer else Inr (b, w))
        else Inl ReferencedBuffer)"
    using assms by (auto simp: reserve_def)
  have 2: "m_capacity b < n \<longrightarrow> resize s r n (b, w) = Inl ReferencedBuffer"
    by (simp add: resize_def res)
  have 3: "m_capacity b < offset + items \<longrightarrow>
        append_ptr s r offset src items (b, w) = Inl ReferencedBuffer"
    by (simp add: append_ptr_def res)
  have 4: "m_capacity b < m_size b + n \<and>
      m_capacity b < (m_size b + n) + (((m_size b + n) + 1) div 2) + 1 \<longrightarrow>
        extend s r n (b, w) = Inl ReferencedBuffer"
    by (simp add: extend_def Let_def res)
  have 5: "m_capacity b < offset + items \<and>
      m_capacity b < (offset + items) + (((offset + items) + 1) div 2) + 1 \<longrightarrow>
        extendAppend s r offset src items (b, w) = Inl ReferencedBuffer"
    by (simp add: extendAppend_def Let_def res)
  have 6: "m_capacity b \<le> m_size b \<and>
      m_capacity b < m_capacity b + ((m_capacity b + 1) div 2) + 1 \<longrightarrow>
        append_value s r v (b, w) = Inl ReferencedBuffer"
    by (simp add: append_value_def res)
  have 7: "m_capacity b \<le> offset \<and>
      m_capacity b < max (offset + 1) (m_capacity b + ((m_capacity b + 1) div 2) + 1) \<longrightarrow>
        safeSet s r offset v (b, w) = Inl ReferencedBuffer"
    by (simp add: safeSet_def res)
  show ?thesis using 1 2 3 4 5 6 7 by blast
qed

theorem reserve_on_aliasing_buffer_witness:
  "m_veloxRef (wrap 4 example_buffer) \<noteq> None \<and>
   m_capacity (wrap 4 example_buffer) = 3 \<and> m_size (wrap 4 example_buffer) = 3 \<and>
   reserve 4 example_reply 10 (wrap 4 example_buffer, example_world) = Inl ReferencedBuffer \<and>
   resize 4 example_reply 10 (wrap 4 example_buffer, example_world) = Inl ReferencedBuffer \<and>
   append_ptr 4 example_reply 3 (128, 0) 3 (wrap 4 example_buffer, example_world)
     = Inl ReferencedBuffer \<and>
   extend 4 example_reply 10 (wrap 4 example_buffer, example_world) = Inl ReferencedBuffer \<and>
   extendAppend 4 example_reply 3 (128, 0) 3 (wrap 4 example_buffer, example_world)
     = Inl ReferencedBuffer \<and>
   append_value 4 example_reply 42 (wrap 4 example_buffer, example_world)
     = Inl ReferencedBuffer \<and>
   safeSet 4 example_reply 3 42 (wrap 4 example_buffer, example_world) = Inl ReferencedBuffer"
proof -
  have h: "m_veloxRef (wrap 4 example_buffer) \<noteq> None" by (simp add: wrap_def Let_def)
  have c: "m_capacity (wrap 4 example_buffer) = 3" "m_size (wrap 4 example_buffer) = 3"
    by (simp_all add: wrap_def Let_def example_buffer_def)
  show ?thesis
    using reserve_on_aliasing_buffer
      [OF h, where s = 4 and r = example_reply and capacity = 10 and w = example_world
         and n = 10 and offset = 3 and items = 3 and src = "(128, 0)" and v = 42] h c
    by simp
qed

text \<open>
  C4 as stated fails for a target within the capacity: on the wrapped buffer of three
  \<^verbatim>\<open>int32_t\<close>, \<^verbatim>\<open>reserve(2)\<close> returns and changes nothing.
\<close>

theorem reserve_on_aliasing_buffer_counterexample:
  "m_veloxRef (wrap 4 example_buffer) \<noteq> None \<and>
   reserve 4 example_reply 2 (wrap 4 example_buffer, example_world)
     = Inr (wrap 4 example_buffer, example_world)"
  by (simp add: reserve_def wrap_def Let_def example_buffer_def)

text \<open>
  C8. Moving \<open>A\<close> into a new instance leaves \<open>A\<close> with length 0, capacity 0 and a null
  data pointer; destroying what is left of \<open>A\<close> changes neither the memory nor the log
  of calls to the pool; the new instance has the pool, the aliased buffer, the data
  pointer, the length and the capacity of \<open>A\<close>.
\<close>

theorem move_transfers_ownership:
  "m_size (snd (move A)) = 0 \<and> m_capacity (snd (move A)) = 0 \<and> m_buf (snd (move A)) = 0 \<and>
   destroy s (snd (move A), w) = (snd (move A), w) \<and>
   calls (snd (destroy s (snd (move A), w))) = calls w \<and>
   fst (move A) = A \<and>
   m_pool (fst (move A)) = m_pool A \<and> m_veloxRef (fst (move A)) = m_veloxRef A \<and>
   m_buf (fst (move A)) = m_buf A \<and> m_size (fst (move A)) = m_size A \<and>
   m_capacity (fst (move A)) = m_capacity A"
  by (simp add: move_def destroy_def clear_def)

theorem move_transfers_ownership_witness:
  "m_buf (snd (move example_owned)) = 0 \<and>
   calls (snd (destroy 4 (snd (move example_owned), example_world))) = [] \<and>
   m_buf (fst (move example_owned)) = 16"
  using move_transfers_ownership [of example_owned 4 example_world]
  by (simp add: example_owned_def example_world_def)

lemma clear_clear: "clear s (clear s bw) = clear s bw"
  by (cases bw) (simp add: clear_def)

lemma clear_funpow: "(clear s ^^ Suc n) bw = clear s bw"
  by (induction n) (simp_all add: clear_clear)

text \<open>
  C10. \<^verbatim>\<open>clear()\<close> is idempotent, and so is the destructor after it: the second call
  makes no call to the pool and leaves length 0, capacity 0 and a null data pointer.
  Over any number of calls of \<^verbatim>\<open>clear()\<close> the pool's \<^verbatim>\<open>free\<close> is called at most once,
  by the first one, for the block that the buffer owns.
\<close>

theorem clear_idempotent:
  "clear s (clear s bw) = clear s bw \<and>
   destroy s (clear s bw) = clear s bw \<and>
   m_size (fst (clear s bw)) = 0 \<and> m_capacity (fst (clear s bw)) = 0 \<and>
   m_buf (fst (clear s bw)) = 0 \<and>
   calls (snd (clear s (clear s bw))) = calls (snd (clear s bw)) \<and>
   calls (snd ((clear s ^^ n) (b, w))) =
     calls w @ (if 0 < n \<and> m_veloxRef b = None \<and> m_buf b \<noteq> 0
                then [(m_pool b, Free (m_buf b) (sizeInBytes s (m_capacity b)))] else [])"
proof -
  have 1: "clear s (clear s bw) = clear s bw" by (rule clear_clear)
  have 2: "calls (snd ((clear s ^^ n) (b, w))) =
     calls w @ (if 0 < n \<and> m_veloxRef b = None \<and> m_buf b \<noteq> 0
                then [(m_pool b, Free (m_buf b) (sizeInBytes s (m_capacity b)))] else [])"
  proof (cases n)
    case 0
    then show ?thesis by simp
  next
    case (Suc k)
    then have "(clear s ^^ n) (b, w) = clear s (b, w)" using clear_funpow by metis
    then show ?thesis using Suc by (simp add: clear_def)
  qed
  show ?thesis using 1 2 by (cases bw) (simp add: destroy_def clear_def)
qed

theorem clear_idempotent_witness:
  "clear 4 (clear 4 (example_owned, example_world)) = clear 4 (example_owned, example_world) \<and>
   calls (snd ((clear 4 ^^ 3) (example_owned, example_world))) = [(1, Free 16 32)]"
  using clear_idempotent [of 4 "(example_owned, example_world)" 3 example_owned example_world]
  by (simp add: example_owned_def example_world_def sizeInBytes_def)

text \<open>
  C5, as the code has it. Take a buffer in owning mode whose length is at most its
  capacity and whose capacity is 0 when its data pointer is null, elements of at least
  one byte, and \<open>newLength\<close> with \<open>sizeof(T) * newLength\<close> below \<open>2 ^ 64\<close> on unbounded
  numbers. Then \<^verbatim>\<open>resize(newLength)\<close> throws exactly when \<open>newLength\<close> is at most the
  capacity and the data pointer is null, or \<open>newLength\<close> is above the capacity and the pool
  returns null. Whenever it returns: the capacity is the larger of the capacity before and
  \<open>newLength\<close>, so at least \<open>newLength\<close>; the length is \<open>newLength\<close>; the pool and the
  owning mode are as before; the pool was called exactly when \<open>newLength\<close> was above the
  capacity, once, with \<open>sizeof(T) * newLength\<close> bytes (an allocation when the data pointer
  was null, a reallocation of the block otherwise), and then the data pointer is the
  pointer that it returned, otherwise the data pointer is as before; the data pointer is
  not null; the elements at the indices from the length before up to \<open>newLength\<close> are
  zero; the elements below the length before are unchanged; every element at an index
  that is at least the length before and at least \<open>newLength\<close> is unchanged when the
  capacity did not grow and is what the pool delivered when it grew, so nothing else is
  zeroed; the memory of every other block is unchanged; and when \<open>newLength\<close> is at most
  the length before, the capacity, the data pointer, the memory and the log of pool calls
  are unchanged.
\<close>

theorem resize_spec:
  assumes "m_veloxRef b = None" and "invariant b" and "s \<noteq> 0" and "unat s * unat n < 2 ^ 64"
  shows
    "((\<exists>e. resize s r n (b, w) = Inl e) \<longleftrightarrow>
        (n \<le> m_capacity b \<and> m_buf b = 0) \<or> (m_capacity b < n \<and> ptr r = 0)) \<and>
     (\<forall>b' w'. resize s r n (b, w) = Inr (b', w') \<longrightarrow>
        n \<le> m_capacity b' \<and> m_capacity b' = max (m_capacity b) n \<and> m_size b' = n \<and>
        m_pool b' = m_pool b \<and> m_veloxRef b' = None \<and>
        m_buf b' = (if n \<le> m_capacity b then m_buf b else ptr r) \<and> m_buf b' \<noteq> 0 \<and>
        calls w' = calls w @
           (if n \<le> m_capacity b then []
            else [(m_pool b, if m_buf b = 0 then Allocate (sizeInBytes s n)
                             else Reallocate (m_buf b) (capacityInBytes s b) (sizeInBytes s n))]) \<and>
        (\<forall>i. unat (m_size b) \<le> i \<and> i < unat n \<longrightarrow> heap w' (m_buf b') i = 0) \<and>
        (\<forall>i. i < unat (m_size b) \<longrightarrow> heap w' (m_buf b') i = heap w (m_buf b) i) \<and>
        (\<forall>i. unat (m_size b) \<le> i \<and> unat n \<le> i \<longrightarrow>
           heap w' (m_buf b') i = (if n \<le> m_capacity b then heap w (m_buf b) i else fresh r i)) \<and>
        (\<forall>p. p \<noteq> m_buf b' \<longrightarrow> heap w' p = heap w p) \<and>
        (n \<le> m_size b \<longrightarrow> m_capacity b' = m_capacity b \<and> m_buf b' = m_buf b \<and> w' = w))"
proof (intro conjI allI impI)
  show "(\<exists>e. resize s r n (b, w) = Inl e) \<longleftrightarrow>
        (n \<le> m_capacity b \<and> m_buf b = 0) \<or> (m_capacity b < n \<and> ptr r = 0)"
    unfolding resize_fails using assms(1,3,4) by (rule reserve_fails_fit)
next
  fix b' w'
  assume res: "resize s r n (b, w) = Inr (b', w')"
  note f = resize_frame [OF res assms(2-4)]
  show "n \<le> m_capacity b'" "m_size b' = n" using resize_length [OF res] by simp_all
  show "m_capacity b' = max (m_capacity b) n" using f by blast
  show "m_pool b' = m_pool b" using f by blast
  show "m_veloxRef b' = None" using f assms(1) by simp
  show "m_buf b' = (if n \<le> m_capacity b then m_buf b else ptr r)" using f by blast
  show "m_buf b' \<noteq> 0" using f by blast
  show "calls w' = calls w @
           (if n \<le> m_capacity b then []
            else [(m_pool b, if m_buf b = 0 then Allocate (sizeInBytes s n)
                             else Reallocate (m_buf b) (capacityInBytes s b) (sizeInBytes s n))])"
    using f by blast
  show "heap w' (m_buf b') i = 0" if "unat (m_size b) \<le> i \<and> i < unat n" for i
    using resize_zero_fill [OF res assms(3,4)] that by simp
  show "heap w' (m_buf b') i = heap w (m_buf b) i" if "i < unat (m_size b)" for i
    using resize_below [OF res assms(2-4) that] .
  show "heap w' (m_buf b') i = (if n \<le> m_capacity b then heap w (m_buf b) i else fresh r i)"
    if "unat (m_size b) \<le> i \<and> unat n \<le> i" for i
    using f that by blast
  show "heap w' p = heap w p" if "p \<noteq> m_buf b'" for p using f that by blast
  have le: "m_size b \<le> m_capacity b" using assms(2) by (simp add: invariant_def)
  show "m_capacity b' = m_capacity b" "m_buf b' = m_buf b" "w' = w" if "n \<le> m_size b"
    using resize_shrink [OF res that le] by simp_all
qed

theorem resize_spec_witness:
  "m_veloxRef example_owned = None \<and> invariant example_owned \<and> (4 :: u64) \<noteq> 0 \<and>
   unat (4 :: u64) * unat (20 :: u64) < 2 ^ 64 \<and> ptr example_reply \<noteq> 0 \<and>
   example_resized = Inr (projr example_resized) \<and>
   m_capacity (fst (projr example_resized)) = 20 \<and>
   m_size (fst (projr example_resized)) = 20 \<and>
   m_buf (fst (projr example_resized)) = 4096 \<and>
   calls (snd (projr example_resized)) = [(1, Reallocate 16 32 80)] \<and>
   heap (snd (projr example_resized)) (m_buf (fst (projr example_resized))) 5 = 0 \<and>
   heap (snd (projr example_resized)) (m_buf (fst (projr example_resized))) 1 = 17 \<and>
   heap (snd (projr example_resized)) (m_buf (fst (projr example_resized))) 25 = 85 \<and>
   heap (snd (projr example_resized)) 128 3 = 131 \<and>
   unat (4 :: u64) * unat (2 :: u64) < 2 ^ 64 \<and> 2 \<le> m_size example_owned \<and>
   example_shrunk = Inr (projr example_shrunk) \<and>
   m_size (fst (projr example_shrunk)) = 2 \<and>
   m_capacity (fst (projr example_shrunk)) = m_capacity example_owned \<and>
   m_buf (fst (projr example_shrunk)) = m_buf example_owned \<and>
   snd (projr example_shrunk) = example_world \<and>
   m_veloxRef example_empty = None \<and> invariant example_empty \<and>
   unat (4 :: u64) * unat (0 :: u64) < 2 ^ 64 \<and>
   0 \<le> m_capacity example_empty \<and> m_buf example_empty = 0 \<and>
   (\<exists>e. resize 4 example_reply 0 (example_empty, example_world) = Inl e)"
proof -
  have h: "m_veloxRef example_owned = None" "invariant example_owned" "(4 :: u64) \<noteq> 0"
    by (simp_all add: invariant_def example_owned_def)
  have f20: "unat (4 :: u64) * unat (20 :: u64) < 2 ^ 64" by simp
  have f2: "unat (4 :: u64) * unat (2 :: u64) < 2 ^ 64" by simp
  have f0: "unat (4 :: u64) * unat (0 :: u64) < 2 ^ 64" by simp
  have own: "ptr example_reply = 4096" "fresh example_reply 25 = 85"
    "m_capacity example_owned = 8" "m_size example_owned = 3" "m_buf example_owned = 16"
    "m_pool example_owned = 1"
    by (simp_all add: example_owned_def example_reply_def)
  have e: "m_veloxRef example_empty = None" "invariant example_empty"
    "m_capacity example_empty = 0" "m_buf example_empty = 0"
    by (simp_all add: invariant_def example_empty_def)
  note t = resize_spec [OF h f20, where r = example_reply and w = example_world]
  have "\<not> (\<exists>e. resize 4 example_reply 20 (example_owned, example_world) = Inl e)"
    using t own by simp
  then obtain b' w' where
    X: "resize 4 example_reply 20 (example_owned, example_world) = Inr (b', w')"
    by (cases "resize 4 example_reply 20 (example_owned, example_world)") auto
  note tr = t [THEN conjunct2, rule_format, OF X]
  have p: "m_capacity b' = 20" "m_size b' = 20" "m_buf b' = 4096"
    "calls w' = [(1, Reallocate 16 32 80)]"
    using tr own by (simp_all add: example_world_def sizeInBytes_def capacityInBytes_def)
  note zero = tr [THEN conjunct2, THEN conjunct2, THEN conjunct2, THEN conjunct2, THEN conjunct2, THEN conjunct2, THEN conjunct2, THEN conjunct2, THEN conjunct1]
    and below = tr [THEN conjunct2, THEN conjunct2, THEN conjunct2, THEN conjunct2, THEN conjunct2, THEN conjunct2, THEN conjunct2, THEN conjunct2, THEN conjunct2, THEN conjunct1]
    and above = tr [THEN conjunct2, THEN conjunct2, THEN conjunct2, THEN conjunct2, THEN conjunct2, THEN conjunct2, THEN conjunct2, THEN conjunct2, THEN conjunct2, THEN conjunct2, THEN conjunct1]
    and other = tr [THEN conjunct2, THEN conjunct2, THEN conjunct2, THEN conjunct2, THEN conjunct2, THEN conjunct2, THEN conjunct2, THEN conjunct2, THEN conjunct2, THEN conjunct2, THEN conjunct2, THEN conjunct1]
  have z: "heap w' (m_buf b') 5 = 0" using zero [rule_format, of 5] own by simp
  have k: "heap w' (m_buf b') 1 = 17"
    using below [rule_format, of 1] own by (simp add: example_world_def)
  have a: "heap w' (m_buf b') 25 = 85" using above [rule_format, of 25] own by simp
  have o: "heap w' 128 3 = 131"
    using other [rule_format, of 128] p(3) by (simp add: example_world_def)
  note u = resize_spec [OF h f2, where r = example_reply and w = example_world]
  have "\<not> (\<exists>e. resize 4 example_reply 2 (example_owned, example_world) = Inl e)"
    using u own by simp
  then obtain b2 w2 where
    Y: "resize 4 example_reply 2 (example_owned, example_world) = Inr (b2, w2)"
    by (cases "resize 4 example_reply 2 (example_owned, example_world)") auto
  note ur = u [THEN conjunct2, rule_format, OF Y]
  have y: "m_size b2 = 2" "m_capacity b2 = 8" "m_buf b2 = 16" "w2 = example_world"
    using ur own by simp_all
  note v = resize_spec [OF e(1,2) h(3) f0, where r = example_reply and w = example_world]
  have n: "\<exists>e. resize 4 example_reply 0 (example_empty, example_world) = Inl e"
    using v e by simp
  show ?thesis
    using h f20 f2 f0 own e X p z k a o Y y n
    by (simp add: example_resized_def example_shrunk_def)
qed

text \<open>
  C5 as stated fails on an owning buffer that was cleared: \<^verbatim>\<open>resize(0)\<close> throws at the
  check of the data pointer in \<^verbatim>\<open>reserve\<close>, and sets no length. It also fails where the
  size in bytes wraps around: with elements of 4 bytes, \<^verbatim>\<open>resize(4611686018427387909)\<close>
  on a buffer of length 3 reallocates the block to 20 bytes and clears 8 bytes, the
  elements at the indices 3 and 4, so the element at index 10, between the length before
  and the new length, is what the pool left there and not 0.
\<close>

theorem resize_spec_counterexample:
  "m_veloxRef (fst (clear 4 (example_owned, example_world))) = None \<and>
   resize 4 example_reply 0 (clear 4 (example_owned, example_world)) = Inl NullBuffer \<and>
   m_veloxRef example_owned = None \<and> m_size example_owned = 3 \<and>
   map_sum id (\<lambda>bw. (m_size (fst bw), calls (snd bw), heap (snd bw) (m_buf (fst bw)) 10))
     (resize 4 example_reply 4611686018427387909 (example_owned, example_world))
     = Inr (4611686018427387909, [(1, Reallocate 16 32 20)], 85)"
  by (simp add: resize_def reserve_def clear_def example_owned_def example_reply_def
      example_world_def Let_def sizeInBytes_def capacityInBytes_def store_block_def
      memset0_def covered_def)

text \<open>
  C9, as the code has it. Take a buffer in owning mode whose length is at most its
  capacity and whose capacity is 0 when its data pointer is null, elements of at least
  one byte, and \<open>additional\<close> such that, when \<open>m = length + additional\<close> is above the
  capacity on unbounded numbers, \<open>sizeof(T) * (m + (m + 1) div 2 + 1)\<close> is below \<open>2 ^ 64\<close>.
  Then \<^verbatim>\<open>extend(additional)\<close> throws exactly when \<open>m\<close> is above the capacity and the pool
  returns null. Whenever it returns: the length, the pool and the owning mode are as
  before; the elements below the length are unchanged; the memory of every other block
  is unchanged; the capacity is not below the capacity before; when \<open>m\<close> is above the
  capacity, the capacity is \<open>m + (m + 1) div 2 + 1\<close>, the pool was called once, with the
  size in bytes of that capacity (an allocation when the data pointer was null, a
  reallocation of the block otherwise), and the data pointer is the pointer that it
  returned; when \<open>m\<close> is at most the capacity, the buffer, the memory and the log of pool
  calls are unchanged.
\<close>

theorem extend_frame:
  assumes "m_veloxRef b = None" and "invariant b" and "s \<noteq> 0"
    and "unat (m_capacity b) < unat (m_size b) + unat n \<longrightarrow>
           unat s * growth (unat (m_size b) + unat n) < 2 ^ 64"
  shows
    "((\<exists>e. extend s r n (b, w) = Inl e) \<longleftrightarrow>
        unat (m_capacity b) < unat (m_size b) + unat n \<and> ptr r = 0) \<and>
     (\<forall>b' w'. extend s r n (b, w) = Inr (b', w') \<longrightarrow>
        m_size b' = m_size b \<and> m_pool b' = m_pool b \<and> m_veloxRef b' = None \<and>
        (\<forall>i. i < unat (m_size b) \<longrightarrow> heap w' (m_buf b') i = heap w (m_buf b) i) \<and>
        (\<forall>p. p \<noteq> m_buf b' \<longrightarrow> heap w' p = heap w p) \<and>
        m_capacity b \<le> m_capacity b' \<and>
        unat (m_capacity b') =
          (if unat (m_capacity b) < unat (m_size b) + unat n
           then growth (unat (m_size b) + unat n) else unat (m_capacity b)) \<and>
        m_buf b' = (if unat (m_capacity b) < unat (m_size b) + unat n then ptr r else m_buf b) \<and>
        calls w' = calls w @
          (if unat (m_capacity b) < unat (m_size b) + unat n
           then [(m_pool b,
                  if m_buf b = 0
                  then Allocate
                    (sizeInBytes s ((m_size b + n) + (((m_size b + n) + 1) div 2) + 1))
                  else Reallocate (m_buf b) (capacityInBytes s b)
                    (sizeInBytes s ((m_size b + n) + (((m_size b + n) + 1) div 2) + 1)))]
           else []) \<and>
        (unat (m_size b) + unat n \<le> unat (m_capacity b) \<longrightarrow> b' = b \<and> w' = w))"
proof -
  let ?m = "unat (m_size b) + unat n"
  let ?t = "(m_size b + n) + (((m_size b + n) + 1) div 2) + 1"
  note own = assms(1) and inv = assms(2) and s = assms(3)
  show ?thesis
  proof (cases "unat (m_capacity b) < ?m")
    case True
    have fit: "unat s * growth ?m < 2 ^ 64" using assms(4) True by simp
    note t = extend_target [OF fits_pos [OF s fit]]
    have trig: "m_capacity b < m_size b + n \<longleftrightarrow> unat (m_capacity b) < ?m"
      using t(1) by (simp add: word_less_nat_alt)
    have ft: "unat s * unat ?t < 2 ^ 64" using fit t(2) by simp
    have e: "extend s r n (b, w) = reserve s r ?t (b, w)"
      using True trig by (simp add: extend_unfold)
    have "?m < growth ?m" by (rule growth_ge)
    then have gt: "m_capacity b < ?t" using True t(2) by (simp add: word_less_nat_alt)
    then have ngt: "\<not> ?t \<le> m_capacity b" by simp
    have 1: "(\<exists>e. extend s r n (b, w) = Inl e) \<longleftrightarrow> unat (m_capacity b) < ?m \<and> ptr r = 0"
      unfolding e reserve_fails_fit [OF own s ft] using gt ngt True by simp
    have 2: "m_size b' = m_size b \<and> m_pool b' = m_pool b \<and> m_veloxRef b' = None \<and>
        (\<forall>i. i < unat (m_size b) \<longrightarrow> heap w' (m_buf b') i = heap w (m_buf b) i) \<and>
        (\<forall>p. p \<noteq> m_buf b' \<longrightarrow> heap w' p = heap w p) \<and>
        m_capacity b \<le> m_capacity b' \<and>
        unat (m_capacity b') = growth ?m \<and> m_buf b' = ptr r \<and>
        calls w' = calls w @
          [(m_pool b, if m_buf b = 0 then Allocate (sizeInBytes s ?t)
                      else Reallocate (m_buf b) (capacityInBytes s b) (sizeInBytes s ?t))]"
      if res: "extend s r n (b, w) = Inr (b', w')" for b' w'
    proof -
      have r1: "reserve s r ?t (b, w) = Inr (b', w')" using res e by simp
      note p = reserve_post [OF r1 s ft]
      have c: "m_capacity b' = ?t" using r1 gt by (rule reserve_capacity_eq)
      have k: "heap w' (m_buf b') i = heap w (m_buf b) i" if "i < unat (m_size b)" for i
        using res inv s fit that by (rule extend_keeps)
      have mono: "m_capacity b \<le> m_capacity b'" using r1 by (rule reserve_capacity_mono)
      have "m_buf b' = ptr r" "m_size b' = m_size b" "m_pool b' = m_pool b"
        "m_veloxRef b' = None"
        "calls w' = calls w @
          [(m_pool b, if m_buf b = 0 then Allocate (sizeInBytes s ?t)
                      else Reallocate (m_buf b) (capacityInBytes s b) (sizeInBytes s ?t))]"
        "\<forall>p. p \<noteq> m_buf b' \<longrightarrow> heap w' p = heap w p"
        using p ngt own by simp_all
      then show ?thesis using c t(2) k mono by simp
    qed
    have nle: "\<not> unat (m_size b) + unat n \<le> unat (m_capacity b)" using True by simp
    have 3: "m_size b' = m_size b \<and> m_pool b' = m_pool b \<and> m_veloxRef b' = None \<and>
        (\<forall>i. i < unat (m_size b) \<longrightarrow> heap w' (m_buf b') i = heap w (m_buf b) i) \<and>
        (\<forall>p. p \<noteq> m_buf b' \<longrightarrow> heap w' p = heap w p) \<and>
        m_capacity b \<le> m_capacity b' \<and>
        unat (m_capacity b') =
          (if unat (m_capacity b) < unat (m_size b) + unat n
           then growth (unat (m_size b) + unat n) else unat (m_capacity b)) \<and>
        m_buf b' = (if unat (m_capacity b) < unat (m_size b) + unat n then ptr r else m_buf b) \<and>
        calls w' = calls w @
          (if unat (m_capacity b) < unat (m_size b) + unat n
           then [(m_pool b,
                  if m_buf b = 0
                  then Allocate
                    (sizeInBytes s ((m_size b + n) + (((m_size b + n) + 1) div 2) + 1))
                  else Reallocate (m_buf b) (capacityInBytes s b)
                    (sizeInBytes s ((m_size b + n) + (((m_size b + n) + 1) div 2) + 1)))]
           else []) \<and>
        (unat (m_size b) + unat n \<le> unat (m_capacity b) \<longrightarrow> b' = b \<and> w' = w)"
      if res: "extend s r n (b, w) = Inr (b', w')" for b' w'
      unfolding if_P [OF True] using 2 [OF res] nle by blast
    show ?thesis using 1 3 by blast
  next
    case False
    have "unat (m_capacity b) < 2 ^ 64" using unsigned_less [of "m_capacity b"] by simp
    then have "?m < 2 ^ 64" using False by simp
    then have "unat (m_size b + n) = ?m" by (rule unat_sum)
    then have "\<not> m_capacity b < m_size b + n" using False by (simp add: word_less_nat_alt)
    then have e: "extend s r n (b, w) = Inr (b, w)" by (simp add: extend_unfold)
    show ?thesis using False by (simp add: e own)
  qed
qed

theorem extend_frame_witness:
  "m_veloxRef example_owned = None \<and> invariant example_owned \<and> (4 :: u64) \<noteq> 0 \<and>
   unat (4 :: u64) * growth (unat (m_size example_owned) + unat (10 :: u64)) < 2 ^ 64 \<and>
   unat (m_capacity example_owned) < unat (m_size example_owned) + unat (10 :: u64) \<and>
   ptr example_reply \<noteq> 0 \<and>
   example_extended = Inr (projr example_extended) \<and>
   m_size (fst (projr example_extended)) = 3 \<and>
   unat (m_capacity (fst (projr example_extended))) = 21 \<and>
   m_buf (fst (projr example_extended)) = 4096 \<and>
   calls (snd (projr example_extended)) = [(1, Reallocate 16 32 84)] \<and>
   heap (snd (projr example_extended)) (m_buf (fst (projr example_extended))) 1 = 17 \<and>
   heap (snd (projr example_extended)) 128 3 = 131 \<and>
   unat (m_size example_owned) + unat (2 :: u64) \<le> unat (m_capacity example_owned) \<and>
   extend 4 example_reply 2 (example_owned, example_world) = Inr (example_owned, example_world) \<and>
   ptr (example_reply\<lparr>ptr := 0\<rparr>) = 0 \<and>
   (\<exists>e. extend 4 (example_reply\<lparr>ptr := 0\<rparr>) 10 (example_owned, example_world) = Inl e)"
proof -
  have h: "m_veloxRef example_owned = None" "invariant example_owned" "(4 :: u64) \<noteq> 0"
    by (simp_all add: invariant_def example_owned_def)
  have own: "ptr example_reply = 4096" "m_capacity example_owned = 8"
    "m_size example_owned = 3" "m_buf example_owned = 16" "m_pool example_owned = 1"
    by (simp_all add: example_owned_def example_reply_def)
  have g: "growth 13 = 21" "growth 5 = 9" by (simp_all add: growth_def)
  have f10: "unat (4 :: u64) * growth (unat (m_size example_owned) + unat (10 :: u64)) < 2 ^ 64"
    using own g by simp
  have i10: "unat (m_capacity example_owned) < unat (m_size example_owned) + unat (10 :: u64) \<longrightarrow>
      unat (4 :: u64) * growth (unat (m_size example_owned) + unat (10 :: u64)) < 2 ^ 64"
    using f10 by simp
  have i2: "unat (m_capacity example_owned) < unat (m_size example_owned) + unat (2 :: u64) \<longrightarrow>
      unat (4 :: u64) * growth (unat (m_size example_owned) + unat (2 :: u64)) < 2 ^ 64"
    using own by simp
  note t = extend_frame [OF h i10, where r = example_reply and w = example_world]
  have "\<not> (\<exists>e. extend 4 example_reply 10 (example_owned, example_world) = Inl e)"
    using t [THEN conjunct1] own by simp
  then obtain b' w' where
    X: "extend 4 example_reply 10 (example_owned, example_world) = Inr (b', w')"
    by (cases "extend 4 example_reply 10 (example_owned, example_world)") auto
  note tr = t [THEN conjunct2, rule_format, OF X]
  have p: "m_size b' = 3" "unat (m_capacity b') = 21" "m_buf b' = 4096"
    "calls w' = [(1, Reallocate 16 32 84)]"
    using tr own g by (simp_all add: example_world_def sizeInBytes_def capacityInBytes_def)
  note below = tr [THEN conjunct2, THEN conjunct2, THEN conjunct2, THEN conjunct1]
    and other = tr [THEN conjunct2, THEN conjunct2, THEN conjunct2, THEN conjunct2,
      THEN conjunct1]
  have k: "heap w' (m_buf b') 1 = 17"
    using below [rule_format, of 1] own by (simp add: example_world_def)
  have o: "heap w' 128 3 = 131"
    using other [rule_format, of 128] p(3) by (simp add: example_world_def)
  note u = extend_frame [OF h i2, where r = example_reply and w = example_world]
  have "\<not> (\<exists>e. extend 4 example_reply 2 (example_owned, example_world) = Inl e)"
    using u [THEN conjunct1] own by simp
  then obtain b2 w2 where
    Y: "extend 4 example_reply 2 (example_owned, example_world) = Inr (b2, w2)"
    by (cases "extend 4 example_reply 2 (example_owned, example_world)") auto
  note ur = u [THEN conjunct2, rule_format, OF Y]
  have y: "b2 = example_owned" "w2 = example_world" using ur own by simp_all
  note v = extend_frame [OF h i10, where r = "example_reply\<lparr>ptr := 0\<rparr>" and w = example_world]
  have n: "\<exists>e. extend 4 (example_reply\<lparr>ptr := 0\<rparr>) 10 (example_owned, example_world) = Inl e"
    using v [THEN conjunct1] own by simp
  show ?thesis
    using h f10 own g X p k o Y y n by (simp add: example_extended_def)
qed

text \<open>
  C9 as stated fails where the sizes wrap around. \<^verbatim>\<open>extend(UINT64_MAX)\<close> on a buffer of
  length 3 and capacity 8 computes the new size 2 and changes nothing, although \<open>length +
  additional\<close> exceeds the capacity. \<^verbatim>\<open>extend(12297829382473034410)\<close> on the empty owning
  buffer asks \<^verbatim>\<open>reserve\<close> for \<open>2 ^ 64\<close>, that is for 0, and throws. With elements of 4
  bytes, \<^verbatim>\<open>extend(3074457345618258599)\<close> on the buffer of length 3 asks for the capacity
  \<open>2 ^ 62\<close>, whose size in bytes wraps to 0: the pool reallocates the block to 0 bytes,
  none of the elements is carried over, and the element at index 1 is no longer the one
  that was there.
\<close>

theorem extend_frame_counterexample:
  "m_veloxRef example_owned = None \<and>
   unat (m_capacity example_owned)
     < unat (m_size example_owned) + unat (18446744073709551615 :: u64) \<and>
   extend 4 example_reply 18446744073709551615 (example_owned, example_world)
     = Inr (example_owned, example_world) \<and>
   m_veloxRef example_empty = None \<and> ptr example_reply \<noteq> 0 \<and>
   extend 4 example_reply 12297829382473034410 (example_empty, example_world) = Inl NullBuffer \<and>
   heap example_world (m_buf example_owned) 1 = 17 \<and>
   map_sum id (\<lambda>bw. (m_size (fst bw), calls (snd bw), heap (snd bw) (m_buf (fst bw)) 1))
     (extend 4 example_reply 3074457345618258599 (example_owned, example_world))
     = Inr (3, [(1, Reallocate 16 32 0)], 85)"
  by (simp add: extend_def reserve_def Let_def example_owned_def example_empty_def
      example_reply_def example_world_def sizeInBytes_def capacityInBytes_def
      store_block_def covered_def)

text \<open>
  C6, as the code has it. Take a buffer in owning mode whose length is at most its
  capacity and whose capacity is 0 when its data pointer is null, elements of at least
  one byte, and \<open>offset\<close> such that, when \<open>offset\<close> is at least the capacity \<open>c\<close>,
  \<open>sizeof(T) * max (offset + 1) (c + (c + 1) div 2 + 1)\<close> is below \<open>2 ^ 64\<close> on unbounded
  numbers. Then \<^verbatim>\<open>safeSet(offset, value)\<close> throws exactly when \<open>offset\<close> is at least the
  capacity and the pool returns null. Whenever it returns: \<open>value\<close> is at the index
  \<open>offset\<close>, and \<^verbatim>\<open>at(offset)\<close> returns it; the data pointer is not null; the other
  elements below the length before are unchanged; the memory of every other block is
  unchanged; the length is \<open>offset + 1\<close> when \<open>offset\<close> was at least the length, and as
  before otherwise; when \<open>offset\<close> was at least the capacity, the capacity is
  \<open>max (offset + 1) (c + (c + 1) div 2 + 1)\<close>, in the arithmetic of the code and on
  unbounded numbers, the pool was called once, with the size in bytes of that capacity
  (an allocation when the data pointer was null, a reallocation of the block otherwise),
  and the data pointer is the pointer that it returned; otherwise the capacity, the data
  pointer and the log of pool calls are as before; the capacity is above \<open>offset\<close>; the
  pool and the owning mode are as before. In particular \<^verbatim>\<open>safeSet(100, v)\<close> on an empty
  buffer leaves the length 101, \<open>v\<close> at the index 100 and a capacity of at least 101.
\<close>

theorem safeSet_spec:
  assumes "m_veloxRef b = None" and "invariant b" and "s \<noteq> 0"
    and "m_capacity b \<le> offset \<longrightarrow>
           unat s * max (unat offset + 1) (growth (unat (m_capacity b))) < 2 ^ 64"
  shows
    "((\<exists>e. safeSet s r offset v (b, w) = Inl e) \<longleftrightarrow> m_capacity b \<le> offset \<and> ptr r = 0) \<and>
     (\<forall>b' w'. safeSet s r offset v (b, w) = Inr (b', w') \<longrightarrow>
        heap w' (m_buf b') (unat offset) = v \<and> at_index offset (b', w') = Inr v \<and>
        m_buf b' \<noteq> 0 \<and>
        (\<forall>i. i < unat (m_size b) \<and> i \<noteq> unat offset \<longrightarrow>
           heap w' (m_buf b') i = heap w (m_buf b) i) \<and>
        (\<forall>p. p \<noteq> m_buf b' \<longrightarrow> heap w' p = heap w p) \<and>
        m_size b' = (if m_size b \<le> offset then offset + 1 else m_size b) \<and>
        unat (m_size b') = (if m_size b \<le> offset then unat offset + 1 else unat (m_size b)) \<and>
        m_capacity b' =
          (if m_capacity b \<le> offset
           then max (offset + 1) (m_capacity b + ((m_capacity b + 1) div 2) + 1)
           else m_capacity b) \<and>
        unat (m_capacity b') =
          (if m_capacity b \<le> offset
           then max (unat offset + 1) (growth (unat (m_capacity b)))
           else unat (m_capacity b)) \<and>
        unat offset < unat (m_capacity b') \<and>
        m_buf b' = (if m_capacity b \<le> offset then ptr r else m_buf b) \<and>
        m_pool b' = m_pool b \<and> m_veloxRef b' = None \<and>
        calls w' = calls w @
          (if m_capacity b \<le> offset
           then [(m_pool b,
                  if m_buf b = 0
                  then Allocate (sizeInBytes s
                    (max (offset + 1) (m_capacity b + ((m_capacity b + 1) div 2) + 1)))
                  else Reallocate (m_buf b) (capacityInBytes s b) (sizeInBytes s
                    (max (offset + 1) (m_capacity b + ((m_capacity b + 1) div 2) + 1))))]
           else []) \<and>
        (offset = 100 \<and> m_size b = 0 \<longrightarrow>
           m_size b' = 101 \<and> at_index 100 (b', w') = Inr v \<and> 101 \<le> m_capacity b'))"
proof -
  let ?c = "m_capacity b"
  let ?t = "max (offset + 1) (?c + ((?c + 1) div 2) + 1)"
  note own = assms(1) and inv = assms(2) and s = assms(3)
  have ex: "m_size b' = 101 \<and> at_index 100 (b', w') = Inr v \<and> 101 \<le> m_capacity b'"
    if "offset = 100" "m_size b = 0"
      "m_size b' = (if m_size b \<le> offset then offset + 1 else m_size b)"
      "at_index offset (b', w') = Inr v" "unat offset < unat (m_capacity b')" for b' w'
  proof -
    have "100 < unat (m_capacity b')" using that(1,5) by simp
    then have "101 \<le> m_capacity b'" by (simp add: word_le_nat_alt)
    then show ?thesis using that by simp
  qed
  show ?thesis
  proof (cases "?c \<le> offset")
    case True
    have fit: "unat s * max (unat offset + 1) (growth (unat ?c)) < 2 ^ 64"
      using assms(4) True by simp
    have mx: "max (unat offset + 1) (growth (unat ?c)) < 2 ^ 64" using s fit by (rule fits_pos)
    then have fo: "unat offset + 1 < 2 ^ 64" and g: "growth (unat ?c) < 2 ^ 64" by simp_all
    have ut: "unat ?t = max (unat offset + 1) (growth (unat ?c))"
      using unat_growth [OF g] unat_plus1 [OF fo] by (simp add: unat_max)
    have ft: "unat s * unat ?t < 2 ^ 64" using fit ut by simp
    have gt: "?c < ?t" using True fo by (rule safeSet_target)
    then have ngt: "\<not> ?t \<le> ?c" by (simp only: not_le)
    have 1: "(\<exists>e. safeSet s r offset v (b, w) = Inl e) \<longleftrightarrow> ?c \<le> offset \<and> ptr r = 0"
      unfolding safeSet_grow_fails [OF True] reserve_fails_fit [OF own s ft]
      using gt ngt True by blast
    have 2: "heap w' (m_buf b') (unat offset) = v \<and> at_index offset (b', w') = Inr v \<and>
        m_buf b' \<noteq> 0 \<and>
        (\<forall>i. i < unat (m_size b) \<and> i \<noteq> unat offset \<longrightarrow>
           heap w' (m_buf b') i = heap w (m_buf b) i) \<and>
        (\<forall>p. p \<noteq> m_buf b' \<longrightarrow> heap w' p = heap w p) \<and>
        m_size b' = (if m_size b \<le> offset then offset + 1 else m_size b) \<and>
        unat (m_size b') = (if m_size b \<le> offset then unat offset + 1 else unat (m_size b)) \<and>
        m_capacity b' = ?t \<and>
        unat (m_capacity b') = max (unat offset + 1) (growth (unat ?c)) \<and>
        unat offset < unat (m_capacity b') \<and>
        m_buf b' = ptr r \<and> m_pool b' = m_pool b \<and> m_veloxRef b' = None \<and>
        calls w' = calls w @
          [(m_pool b, if m_buf b = 0 then Allocate (sizeInBytes s ?t)
                      else Reallocate (m_buf b) (capacityInBytes s b) (sizeInBytes s ?t))] \<and>
        (offset = 100 \<and> m_size b = 0 \<longrightarrow>
           m_size b' = 101 \<and> at_index 100 (b', w') = Inr v \<and> 101 \<le> m_capacity b')"
      if res: "safeSet s r offset v (b, w) = Inr (b', w')" for b' w'
    proof -
      obtain b1 w1 where r1: "reserve s r ?t (b, w) = Inr (b1, w1)"
        using safeSet_grow_Inr [OF True res] by blast
      have eq: "(b', w') = (if m_size b1 \<le> offset then b1\<lparr>m_size := offset + 1\<rparr> else b1,
            w1\<lparr>heap := (heap w1)(m_buf b1 := (heap w1 (m_buf b1))(unat offset := v))\<rparr>)"
        using safeSet_grow [OF True r1, of v] res by simp
      note wr = safeSet_write [OF eq fo]
      note p = reserve_post [OF r1 s ft, unfolded if_not_P [OF ngt]]
      have p1: "m_capacity b1 = ?t" using r1 gt by (rule reserve_capacity_eq)
      have p2: "m_buf b1 = ptr r" "m_buf b1 \<noteq> 0" "m_size b1 = m_size b" "m_pool b1 = m_pool b"
        "m_veloxRef b1 = None"
        "calls w1 = calls w @
          [(m_pool b, if m_buf b = 0 then Allocate (sizeInBytes s ?t)
                      else Reallocate (m_buf b) (capacityInBytes s b) (sizeInBytes s ?t))]"
        "\<forall>p. p \<noteq> m_buf b1 \<longrightarrow> heap w1 p = heap w p"
        using p own by simp_all
      have kept: "heap w1 (m_buf b1) i = heap w (m_buf b) i" if "i < unat (m_size b)" for i
      proof -
        have "i < unat ?c" using that inv by (simp add: invariant_def word_le_nat_alt)
        then show ?thesis by (rule reserve_content [OF r1 inv s ft])
      qed
      have a: "heap w' (m_buf b') (unat offset) = v" "at_index offset (b', w') = Inr v"
        "m_buf b' = ptr r" "m_buf b' \<noteq> 0" "m_capacity b' = ?t" "m_pool b' = m_pool b"
        "m_veloxRef b' = None"
        "m_size b' = (if m_size b \<le> offset then offset + 1 else m_size b)"
        "unat (m_size b') = (if m_size b \<le> offset then unat offset + 1 else unat (m_size b))"
        "calls w' = calls w @
          [(m_pool b, if m_buf b = 0 then Allocate (sizeInBytes s ?t)
                      else Reallocate (m_buf b) (capacityInBytes s b) (sizeInBytes s ?t))]"
        using wr p1 p2 by auto
      have k: "\<forall>i. i < unat (m_size b) \<and> i \<noteq> unat offset \<longrightarrow>
           heap w' (m_buf b') i = heap w (m_buf b) i"
        using wr kept by auto
      have o: "\<forall>p. p \<noteq> m_buf b' \<longrightarrow> heap w' p = heap w p"
        using wr p2(7) by auto
      have uc: "unat (m_capacity b') = max (unat offset + 1) (growth (unat ?c))"
        using a(5) ut by simp
      then have lt: "unat offset < unat (m_capacity b')" by simp
      note e = ex [OF _ _ a(8) a(2) lt]
      show ?thesis using a k o uc lt e by blast
    qed
    have 3: "heap w' (m_buf b') (unat offset) = v \<and> at_index offset (b', w') = Inr v \<and>
        m_buf b' \<noteq> 0 \<and>
        (\<forall>i. i < unat (m_size b) \<and> i \<noteq> unat offset \<longrightarrow>
           heap w' (m_buf b') i = heap w (m_buf b) i) \<and>
        (\<forall>p. p \<noteq> m_buf b' \<longrightarrow> heap w' p = heap w p) \<and>
        m_size b' = (if m_size b \<le> offset then offset + 1 else m_size b) \<and>
        unat (m_size b') = (if m_size b \<le> offset then unat offset + 1 else unat (m_size b)) \<and>
        m_capacity b' = (if ?c \<le> offset then ?t else ?c) \<and>
        unat (m_capacity b') =
          (if ?c \<le> offset then max (unat offset + 1) (growth (unat ?c)) else unat ?c) \<and>
        unat offset < unat (m_capacity b') \<and>
        m_buf b' = (if ?c \<le> offset then ptr r else m_buf b) \<and>
        m_pool b' = m_pool b \<and> m_veloxRef b' = None \<and>
        calls w' = calls w @
          (if ?c \<le> offset
           then [(m_pool b, if m_buf b = 0 then Allocate (sizeInBytes s ?t)
                      else Reallocate (m_buf b) (capacityInBytes s b) (sizeInBytes s ?t))]
           else []) \<and>
        (offset = 100 \<and> m_size b = 0 \<longrightarrow>
           m_size b' = 101 \<and> at_index 100 (b', w') = Inr v \<and> 101 \<le> m_capacity b')"
      if res: "safeSet s r offset v (b, w) = Inr (b', w')" for b' w'
      unfolding if_P [OF True] using 2 [OF res] by blast
    show ?thesis using 1 3 by blast
  next
    case False
    then have lt: "offset < ?c" by simp
    have "unat ?c < 2 ^ 64" using unsigned_less [of ?c] by simp
    moreover have "unat offset < unat ?c" using lt by (simp add: word_less_nat_alt)
    ultimately have fo: "unat offset + 1 < 2 ^ 64" by simp
    have "?c \<noteq> 0" using lt by auto
    then have nb: "m_buf b \<noteq> 0" using inv by (auto simp: invariant_def)
    have ret: "safeSet s r offset v (b, w) =
       Inr (if m_size b \<le> offset then b\<lparr>m_size := offset + 1\<rparr> else b,
            w\<lparr>heap := (heap w)(m_buf b := (heap w (m_buf b))(unat offset := v))\<rparr>)"
      using False by (rule safeSet_stay)
    have 1: "(\<exists>e. safeSet s r offset v (b, w) = Inl e) \<longleftrightarrow> ?c \<le> offset \<and> ptr r = 0"
      using ret False by simp
    have 3: "heap w' (m_buf b') (unat offset) = v \<and> at_index offset (b', w') = Inr v \<and>
        m_buf b' \<noteq> 0 \<and>
        (\<forall>i. i < unat (m_size b) \<and> i \<noteq> unat offset \<longrightarrow>
           heap w' (m_buf b') i = heap w (m_buf b) i) \<and>
        (\<forall>p. p \<noteq> m_buf b' \<longrightarrow> heap w' p = heap w p) \<and>
        m_size b' = (if m_size b \<le> offset then offset + 1 else m_size b) \<and>
        unat (m_size b') = (if m_size b \<le> offset then unat offset + 1 else unat (m_size b)) \<and>
        m_capacity b' = (if ?c \<le> offset then ?t else ?c) \<and>
        unat (m_capacity b') =
          (if ?c \<le> offset then max (unat offset + 1) (growth (unat ?c)) else unat ?c) \<and>
        unat offset < unat (m_capacity b') \<and>
        m_buf b' = (if ?c \<le> offset then ptr r else m_buf b) \<and>
        m_pool b' = m_pool b \<and> m_veloxRef b' = None \<and>
        calls w' = calls w @
          (if ?c \<le> offset
           then [(m_pool b, if m_buf b = 0 then Allocate (sizeInBytes s ?t)
                      else Reallocate (m_buf b) (capacityInBytes s b) (sizeInBytes s ?t))]
           else []) \<and>
        (offset = 100 \<and> m_size b = 0 \<longrightarrow>
           m_size b' = 101 \<and> at_index 100 (b', w') = Inr v \<and> 101 \<le> m_capacity b')"
      if res: "safeSet s r offset v (b, w) = Inr (b', w')" for b' w'
    proof -
      have eq: "(b', w') = (if m_size b \<le> offset then b\<lparr>m_size := offset + 1\<rparr> else b,
            w\<lparr>heap := (heap w)(m_buf b := (heap w (m_buf b))(unat offset := v))\<rparr>)"
        using ret res by simp
      note wr = safeSet_write [OF eq fo]
      have a: "heap w' (m_buf b') (unat offset) = v" "at_index offset (b', w') = Inr v"
        "m_buf b' = m_buf b" "m_buf b' \<noteq> 0" "m_capacity b' = ?c" "m_pool b' = m_pool b"
        "m_veloxRef b' = None"
        "m_size b' = (if m_size b \<le> offset then offset + 1 else m_size b)"
        "unat (m_size b') = (if m_size b \<le> offset then unat offset + 1 else unat (m_size b))"
        "calls w' = calls w"
        "\<forall>i. i < unat (m_size b) \<and> i \<noteq> unat offset \<longrightarrow>
           heap w' (m_buf b') i = heap w (m_buf b) i"
        "\<forall>p. p \<noteq> m_buf b' \<longrightarrow> heap w' p = heap w p"
        using wr nb own by auto
      have lt': "unat offset < unat (m_capacity b')" using a(5) lt by (simp add: word_less_nat_alt)
      note e = ex [OF _ _ a(8) a(2) lt']
      show ?thesis unfolding if_not_P [OF False] using a lt' e by simp
    qed
    show ?thesis using 1 3 by blast
  qed
qed

theorem safeSet_spec_witness:
  "m_veloxRef example_empty = None \<and> invariant example_empty \<and> (4 :: u64) \<noteq> 0 \<and>
   unat (4 :: u64) * max (unat (100 :: u64) + 1) (growth (unat (m_capacity example_empty))) < 2 ^ 64 \<and>
   m_capacity example_empty \<le> 100 \<and> m_size example_empty = 0 \<and> ptr example_reply \<noteq> 0 \<and>
   example_set = Inr (projr example_set) \<and>
   m_size (fst (projr example_set)) = 101 \<and>
   unat (m_capacity (fst (projr example_set))) = 101 \<and>
   101 \<le> m_capacity (fst (projr example_set)) \<and>
   at_index 100 (projr example_set) = Inr 42 \<and>
   m_buf (fst (projr example_set)) = 4096 \<and>
   calls (snd (projr example_set)) = [(1, Allocate 404)] \<and>
   heap (snd (projr example_set)) 128 3 = 131 \<and>
   m_veloxRef example_owned = None \<and> invariant example_owned \<and>
   \<not> m_capacity example_owned \<le> 2 \<and>
   safeSet 4 example_reply 2 42 (example_owned, example_world)
     = Inr (projr (safeSet 4 example_reply 2 42 (example_owned, example_world))) \<and>
   m_size (fst (projr (safeSet 4 example_reply 2 42 (example_owned, example_world)))) = 3 \<and>
   m_capacity (fst (projr (safeSet 4 example_reply 2 42 (example_owned, example_world)))) = 8 \<and>
   m_buf (fst (projr (safeSet 4 example_reply 2 42 (example_owned, example_world)))) = 16 \<and>
   calls (snd (projr (safeSet 4 example_reply 2 42 (example_owned, example_world)))) = [] \<and>
   heap (snd (projr (safeSet 4 example_reply 2 42 (example_owned, example_world)))) 16 2 = 42 \<and>
   heap (snd (projr (safeSet 4 example_reply 2 42 (example_owned, example_world)))) 16 1 = 17 \<and>
   ptr (example_reply\<lparr>ptr := 0\<rparr>) = 0 \<and>
   (\<exists>e. safeSet 4 (example_reply\<lparr>ptr := 0\<rparr>) 100 42 (example_empty, example_world) = Inl e)"
proof -
  have g0: "growth 0 = 1" by (simp add: growth_def)
  have e: "m_veloxRef example_empty = None" "invariant example_empty"
    "m_capacity example_empty = 0" "m_size example_empty = 0" "m_buf example_empty = 0"
    "m_pool example_empty = 1"
    by (simp_all add: invariant_def example_empty_def)
  have h: "m_veloxRef example_owned = None" "invariant example_owned"
    "m_capacity example_owned = 8" "m_size example_owned = 3" "m_buf example_owned = 16"
    "m_pool example_owned = 1"
    by (simp_all add: invariant_def example_owned_def)
  have s: "(4 :: u64) \<noteq> 0" by simp
  have rp: "ptr example_reply = 4096" by (simp add: example_reply_def)
  have fe: "unat (4 :: u64) * max (unat (100 :: u64) + 1) (growth (unat (m_capacity example_empty)))
      < 2 ^ 64"
    using e(3) g0 by simp
  have ie: "m_capacity example_empty \<le> 100 \<longrightarrow>
      unat (4 :: u64) * max (unat (100 :: u64) + 1) (growth (unat (m_capacity example_empty)))
      < 2 ^ 64"
    using fe by simp
  have ih: "m_capacity example_owned \<le> 2 \<longrightarrow>
      unat (4 :: u64) * max (unat (2 :: u64) + 1) (growth (unat (m_capacity example_owned)))
      < 2 ^ 64"
    using h(3) by simp
  note t = safeSet_spec [OF e(1,2) s ie, where r = example_reply and w = example_world and v = 42]
  have "\<not> (\<exists>e. safeSet 4 example_reply 100 42 (example_empty, example_world) = Inl e)"
    using t [THEN conjunct1] rp by simp
  then obtain b' w' where
    X: "safeSet 4 example_reply 100 42 (example_empty, example_world) = Inr (b', w')"
    by (cases "safeSet 4 example_reply 100 42 (example_empty, example_world)") auto
  note tr = t [THEN conjunct2, rule_format, OF X]
  note t_at = tr [THEN conjunct2, THEN conjunct1]
    and t_other = tr [THEN conjunct2, THEN conjunct2, THEN conjunct2, THEN conjunct2, THEN conjunct1]
    and t_size = tr [THEN conjunct2, THEN conjunct2, THEN conjunct2, THEN conjunct2, THEN conjunct2, THEN conjunct1]
    and t_ucap = tr [THEN conjunct2, THEN conjunct2, THEN conjunct2, THEN conjunct2, THEN conjunct2, THEN conjunct2, THEN conjunct2, THEN conjunct2, THEN conjunct1]
    and t_buf = tr [THEN conjunct2, THEN conjunct2, THEN conjunct2, THEN conjunct2, THEN conjunct2, THEN conjunct2, THEN conjunct2, THEN conjunct2, THEN conjunct2, THEN conjunct2, THEN conjunct1]
    and t_calls = tr [THEN conjunct2, THEN conjunct2, THEN conjunct2, THEN conjunct2, THEN conjunct2, THEN conjunct2, THEN conjunct2, THEN conjunct2, THEN conjunct2, THEN conjunct2, THEN conjunct2, THEN conjunct2, THEN conjunct2, THEN conjunct1]
    and t_ex = tr [THEN conjunct2, THEN conjunct2, THEN conjunct2, THEN conjunct2, THEN conjunct2, THEN conjunct2, THEN conjunct2, THEN conjunct2, THEN conjunct2, THEN conjunct2, THEN conjunct2, THEN conjunct2, THEN conjunct2, THEN conjunct2]
  have p1: "m_size b' = 101" using t_size e by simp
  have p2: "unat (m_capacity b') = 101" using t_ucap e g0 by simp
  have p3: "101 \<le> m_capacity b'" using t_ex e by simp
  have p4: "at_index 100 (b', w') = Inr 42" using t_at by simp
  have p5: "m_buf b' = 4096" using t_buf e rp by simp
  have p6: "calls w' = [(1, Allocate 404)]"
    using t_calls e by (simp add: example_world_def sizeInBytes_def)
  have p7: "heap w' 128 3 = 131"
    using t_other [rule_format, of 128] p5 by (simp add: example_world_def)
  note u = safeSet_spec [OF h(1,2) s ih, where r = example_reply and w = example_world and v = 42]
  have "\<not> (\<exists>e. safeSet 4 example_reply 2 42 (example_owned, example_world) = Inl e)"
    using u [THEN conjunct1] h by simp
  then obtain b2 w2 where
    Y: "safeSet 4 example_reply 2 42 (example_owned, example_world) = Inr (b2, w2)"
    by (cases "safeSet 4 example_reply 2 42 (example_owned, example_world)") auto
  note ur = u [THEN conjunct2, rule_format, OF Y]
  note u_val = ur [THEN conjunct1]
    and u_kept = ur [THEN conjunct2, THEN conjunct2, THEN conjunct2, THEN conjunct1]
    and u_size = ur [THEN conjunct2, THEN conjunct2, THEN conjunct2, THEN conjunct2, THEN conjunct2, THEN conjunct1]
    and u_cap = ur [THEN conjunct2, THEN conjunct2, THEN conjunct2, THEN conjunct2, THEN conjunct2, THEN conjunct2, THEN conjunct2, THEN conjunct1]
    and u_buf = ur [THEN conjunct2, THEN conjunct2, THEN conjunct2, THEN conjunct2, THEN conjunct2, THEN conjunct2, THEN conjunct2, THEN conjunct2, THEN conjunct2, THEN conjunct2, THEN conjunct1]
    and u_calls = ur [THEN conjunct2, THEN conjunct2, THEN conjunct2, THEN conjunct2, THEN conjunct2, THEN conjunct2, THEN conjunct2, THEN conjunct2, THEN conjunct2, THEN conjunct2, THEN conjunct2, THEN conjunct2, THEN conjunct2, THEN conjunct1]
  have q1: "m_size b2 = 3" using u_size h by simp
  have q2: "m_capacity b2 = 8" using u_cap h by simp
  have q3: "m_buf b2 = 16" using u_buf h by simp
  have q4: "calls w2 = []" using u_calls h by (simp add: example_world_def)
  have q5: "heap w2 16 2 = 42" using u_val q3 by simp
  have q6: "heap w2 16 1 = 17"
    using u_kept [rule_format, of 1] q3 h by (simp add: example_world_def)
  note v = safeSet_spec [OF e(1,2) s ie, where r = "example_reply\<lparr>ptr := 0\<rparr>"
      and w = example_world and v = 42]
  have n: "\<exists>e. safeSet 4 (example_reply\<lparr>ptr := 0\<rparr>) 100 42 (example_empty, example_world) = Inl e"
    using v [THEN conjunct1] e by simp
  show ?thesis
    using e h s rp fe X p1 p2 p3 p4 p5 p6 p7 Y q1 q2 q3 q4 q5 q6 n
    by (simp add: example_set_def)
qed

text \<open>
  C6 as stated fails where the sizes wrap around. \<^verbatim>\<open>safeSet(18446744073709551615, 42)\<close>
  on an owning buffer of length 3 and capacity 8 computes \<open>offset + 1 = 0\<close> and returns
  with the length 0 and the capacity 13, so the capacity is not \<open>max(offset + 1, 13)\<close> and
  the length is not \<open>offset + 1\<close>. With elements of 4 bytes,
  \<^verbatim>\<open>safeSet(4611686018427387904, 42)\<close> on the empty owning buffer sets the capacity to
  \<open>2 ^ 62 + 1\<close> after asking the pool for a block of 4 bytes, the wrapped size in bytes, so
  the index \<open>offset\<close> is not in the block.
\<close>

theorem safeSet_spec_counterexample:
  "m_veloxRef example_owned = None \<and>
   m_size example_owned \<le> 18446744073709551615 \<and>
   map_sum id (m_size \<circ> fst)
     (safeSet 4 example_reply 18446744073709551615 42 (example_owned, example_world)) = Inr 0 \<and>
   map_sum id (m_capacity \<circ> fst)
     (safeSet 4 example_reply 18446744073709551615 42 (example_owned, example_world)) = Inr 13 \<and>
   m_veloxRef example_empty = None \<and>
   map_sum id (\<lambda>bw. (m_capacity (fst bw), calls (snd bw)))
     (safeSet 4 example_reply 4611686018427387904 42 (example_empty, example_world))
     = Inr (4611686018427387905, [(1, Allocate 4)])"
  by (simp add: safeSet_def reserve_def example_owned_def example_empty_def example_reply_def
      example_world_def Let_def sizeInBytes_def capacityInBytes_def)

text \<open>
  C7, as the code has it. With elements of at least one byte, \<open>otherOffset + count\<close>
  below \<open>2 ^ 64\<close> and \<open>sizeof(T) * (offset + count)\<close> below \<open>2 ^ 64\<close>, both on unbounded
  numbers, the call \<^verbatim>\<open>append(offset, otherBuffer, otherOffset, count)\<close> throws when the
  length of \<open>otherBuffer\<close> is below \<open>otherOffset + count\<close>, and it throws exactly when
  that holds, or \<open>offset + count\<close> is at most the capacity and the data pointer is null,
  or \<open>offset + count\<close> is above the capacity and the buffer is in aliasing mode or the
  pool returns null. Whenever it returns: the capacity is the larger of the capacity
  before and \<open>offset + count\<close>, so at least \<open>offset + count\<close>; the length is
  \<open>offset + count\<close>; the pool was called exactly when \<open>offset + count\<close> was above the
  capacity, once, with \<open>sizeof(T) * (offset + count)\<close> bytes (an allocation when the data
  pointer was null, a reallocation of the block otherwise), and then the data pointer is
  the pointer that it returned, otherwise the data pointer is as before; the data pointer
  is not null; the pool and the aliasing state are as before; the \<open>count\<close> elements of
  \<open>otherBuffer\<close> from \<open>otherOffset\<close> are at the indices from \<open>offset\<close>, when the storage
  of \<open>otherBuffer\<close> is neither this buffer's nor the block that the pool returns; the
  memory of every other block is unchanged; and, on a buffer whose length was at most its
  capacity and whose capacity was 0 when its data pointer was null, the elements below the
  length before and outside the indices from \<open>offset\<close> to \<open>offset + count\<close> are
  unchanged.
\<close>

theorem append_buffer_spec:
  assumes "unat srcOffset + unat items < 2 ^ 64" and "s \<noteq> 0"
    and "unat s * (unat offset + unat items) < 2 ^ 64"
  shows
    "(unat (m_size src) < unat srcOffset + unat items \<longrightarrow>
        append_buffer s r offset src srcOffset items (b, w) = Inl InsufficientSource) \<and>
     ((\<exists>e. append_buffer s r offset src srcOffset items (b, w) = Inl e) \<longleftrightarrow>
        unat (m_size src) < unat srcOffset + unat items \<or>
        (unat offset + unat items \<le> unat (m_capacity b) \<and> m_buf b = 0) \<or>
        (unat (m_capacity b) < unat offset + unat items \<and>
           (m_veloxRef b \<noteq> None \<or> ptr r = 0))) \<and>
     (\<forall>b' w'. append_buffer s r offset src srcOffset items (b, w) = Inr (b', w') \<longrightarrow>
        unat offset + unat items \<le> unat (m_capacity b') \<and>
        unat (m_capacity b') = max (unat (m_capacity b)) (unat offset + unat items) \<and>
        unat (m_size b') = unat offset + unat items \<and>
        m_buf b' = (if unat offset + unat items \<le> unat (m_capacity b) then m_buf b else ptr r) \<and>
        m_buf b' \<noteq> 0 \<and> m_pool b' = m_pool b \<and> m_veloxRef b' = m_veloxRef b \<and>
        calls w' = calls w @
          (if unat offset + unat items \<le> unat (m_capacity b) then []
           else [(m_pool b,
                  if m_buf b = 0 then Allocate (sizeInBytes s (offset + items))
                  else Reallocate (m_buf b) (capacityInBytes s b)
                         (sizeInBytes s (offset + items)))]) \<and>
        (m_buf src \<noteq> m_buf b \<and> m_buf src \<noteq> ptr r \<longrightarrow>
           (\<forall>j. j < unat items \<longrightarrow>
              heap w' (m_buf b') (unat offset + j) = heap w (m_buf src) (unat srcOffset + j))) \<and>
        (\<forall>p. p \<noteq> m_buf b' \<longrightarrow> heap w' p = heap w p) \<and>
        (invariant b \<longrightarrow>
           (\<forall>i. i < unat (m_size b) \<and> (i < unat offset \<or> unat offset + unat items \<le> i) \<longrightarrow>
              heap w' (m_buf b') i = heap w (m_buf b) i)))"
proof -
  let ?m = "unat offset + unat items"
  note s = assms(2) and fit = assms(3)
  note chk = source_check [OF assms(1), of "m_size src"]
  have fo: "?m < 2 ^ 64" using s fit by (rule fits_pos)
  have um: "unat (offset + items) = ?m" using fo by (rule unat_sum)
  have ft: "unat s * unat (offset + items) < 2 ^ 64" using fit um by simp
  have "unat items \<le> ?m" by simp
  then have "unat s * unat items \<le> unat s * ?m" by (rule mult_le_mono2)
  then have fi: "unat s * unat items < 2 ^ 64" using fit by (rule le_less_trans)
  have le: "offset + items \<le> m_capacity b \<longleftrightarrow> ?m \<le> unat (m_capacity b)"
    using fo by (rule source_check)
  have lt: "m_capacity b < offset + items \<longleftrightarrow> unat (m_capacity b) < ?m"
    using um by (simp add: word_less_nat_alt)
  have 1: "append_buffer s r offset src srcOffset items (b, w) = Inl InsufficientSource"
    if "unat (m_size src) < unat srcOffset + unat items"
    using that chk by (simp add: append_buffer_def)
  have 2: "(\<exists>e. append_buffer s r offset src srcOffset items (b, w) = Inl e) \<longleftrightarrow>
        unat (m_size src) < unat srcOffset + unat items \<or>
        (?m \<le> unat (m_capacity b) \<and> m_buf b = 0) \<or>
        (unat (m_capacity b) < ?m \<and> (m_veloxRef b \<noteq> None \<or> ptr r = 0))"
  proof (cases "unat (m_size src) < unat srcOffset + unat items")
    case True
    then show ?thesis using 1 by simp
  next
    case False
    then have "append_buffer s r offset src srcOffset items (b, w)
        = append_ptr s r offset (m_buf src, unat srcOffset) items (b, w)"
      using chk by (simp add: append_buffer_def)
    then show ?thesis
      using False append_ptr_fails [of s r offset _ items b w]
        reserve_fails_any [OF s ft, of r b w] le lt by simp
  qed
  have 3: "?m \<le> unat (m_capacity b') \<and>
        unat (m_capacity b') = max (unat (m_capacity b)) ?m \<and>
        unat (m_size b') = ?m \<and>
        m_buf b' = (if ?m \<le> unat (m_capacity b) then m_buf b else ptr r) \<and>
        m_buf b' \<noteq> 0 \<and> m_pool b' = m_pool b \<and> m_veloxRef b' = m_veloxRef b \<and>
        calls w' = calls w @
          (if ?m \<le> unat (m_capacity b) then []
           else [(m_pool b,
                  if m_buf b = 0 then Allocate (sizeInBytes s (offset + items))
                  else Reallocate (m_buf b) (capacityInBytes s b)
                         (sizeInBytes s (offset + items)))]) \<and>
        (m_buf src \<noteq> m_buf b \<and> m_buf src \<noteq> ptr r \<longrightarrow>
           (\<forall>j. j < unat items \<longrightarrow>
              heap w' (m_buf b') (unat offset + j) = heap w (m_buf src) (unat srcOffset + j))) \<and>
        (\<forall>p. p \<noteq> m_buf b' \<longrightarrow> heap w' p = heap w p) \<and>
        (invariant b \<longrightarrow>
           (\<forall>i. i < unat (m_size b) \<and> (i < unat offset \<or> ?m \<le> i) \<longrightarrow>
              heap w' (m_buf b') i = heap w (m_buf b) i))"
    if res: "append_buffer s r offset src srcOffset items (b, w) = Inr (b', w')" for b' w'
  proof -
    have p: "append_ptr s r offset (m_buf src, unat srcOffset) items (b, w) = Inr (b', w')"
      using res by (simp add: append_buffer_def split: if_splits)
    from p obtain b1 w1 where r1: "reserve s r (offset + items) (b, w) = Inr (b1, w1)"
      and b': "b' = b1\<lparr>m_size := offset + items\<rparr>"
      and w': "w' = (if 0 < items
           then w1\<lparr>heap := memcpy s (m_buf b1, unat offset) (m_buf src, unat srcOffset)
                  (sizeInBytes s items) (heap w1)\<rparr>
           else w1)"
      by (rule append_ptr_Inr)
    note fr = unsafeAppend_frame [OF b' w' s fi]
    note rp = reserve_post [OF r1 s ft, unfolded le]
    have cap: "unat (m_capacity b') = max (unat (m_capacity b)) ?m"
      using fr rp um by (simp add: unat_max)
    then have ge: "?m \<le> unat (m_capacity b')" by simp
    have sz: "unat (m_size b') = ?m" using fr um by simp
    have f: "m_buf b' = (if ?m \<le> unat (m_capacity b) then m_buf b else ptr r)"
      "m_buf b' \<noteq> 0" "m_pool b' = m_pool b" "m_veloxRef b' = m_veloxRef b"
      "calls w' = calls w @
          (if ?m \<le> unat (m_capacity b) then []
           else [(m_pool b,
                  if m_buf b = 0 then Allocate (sizeInBytes s (offset + items))
                  else Reallocate (m_buf b) (capacityInBytes s b)
                         (sizeInBytes s (offset + items)))])"
      using fr rp by auto
    have o: "\<forall>p. p \<noteq> m_buf b' \<longrightarrow> heap w' p = heap w p"
      using fr rp by auto
    have c: "\<forall>j. j < unat items \<longrightarrow>
              heap w' (m_buf b') (unat offset + j) = heap w (m_buf src) (unat srcOffset + j)"
      if "m_buf src \<noteq> m_buf b \<and> m_buf src \<noteq> ptr r"
      using append_ptr_copies [OF p s fi] that by simp
    have k: "\<forall>i. i < unat (m_size b) \<and> (i < unat offset \<or> ?m \<le> i) \<longrightarrow>
              heap w' (m_buf b') i = heap w (m_buf b) i"
      if inv: "invariant b"
    proof (intro allI impI)
      fix i
      assume i: "i < unat (m_size b) \<and> (i < unat offset \<or> ?m \<le> i)"
      have "i < unat (m_capacity b)" using i inv by (simp add: invariant_def word_le_nat_alt)
      then have "heap w1 (m_buf b1) i = heap w (m_buf b) i"
        by (rule reserve_content [OF r1 inv s ft])
      moreover have "heap w' (m_buf b') i = heap w1 (m_buf b1) i" using fr i by blast
      ultimately show "heap w' (m_buf b') i = heap w (m_buf b) i" by simp
    qed
    show ?thesis using cap ge sz f o c k by blast
  qed
  show ?thesis using 1 2 3 by blast
qed

theorem append_buffer_spec_witness:
  "unat (3 :: u64) + unat (4 :: u64) < 2 ^ 64 \<and> (4 :: u64) \<noteq> 0 \<and>
   unat (4 :: u64) * (unat (6 :: u64) + unat (4 :: u64)) < 2 ^ 64 \<and>
   unat (m_size example_source) < unat (3 :: u64) + unat (4 :: u64) \<and>
   append_buffer 4 example_reply 6 example_source 3 4 (example_owned, example_world)
     = Inl InsufficientSource \<and>
   unat (1 :: u64) + unat (4 :: u64) < 2 ^ 64 \<and>
   \<not> unat (m_size example_source) < unat (1 :: u64) + unat (4 :: u64) \<and>
   unat (m_capacity example_owned) < unat (6 :: u64) + unat (4 :: u64) \<and>
   m_veloxRef example_owned = None \<and> ptr example_reply \<noteq> 0 \<and> invariant example_owned \<and>
   m_buf example_source \<noteq> m_buf example_owned \<and> m_buf example_source \<noteq> ptr example_reply \<and>
   example_appended = Inr (projr example_appended) \<and>
   unat (m_capacity (fst (projr example_appended))) = 10 \<and>
   unat (m_size (fst (projr example_appended))) = 10 \<and>
   m_buf (fst (projr example_appended)) = 4096 \<and>
   calls (snd (projr example_appended)) = [(1, Reallocate 16 32 40)] \<and>
   heap (snd (projr example_appended)) (m_buf (fst (projr example_appended))) 8 = 131 \<and>
   heap (snd (projr example_appended)) (m_buf (fst (projr example_appended))) 1 = 17 \<and>
   heap (snd (projr example_appended)) 128 3 = 131 \<and>
   ptr (example_reply\<lparr>ptr := 0\<rparr>) = 0 \<and>
   (\<exists>e. append_buffer 4 (example_reply\<lparr>ptr := 0\<rparr>) 6 example_source 1 4
           (example_owned, example_world) = Inl e)"
proof -
  have h1: "unat (3 :: u64) + unat (4 :: u64) < 2 ^ 64" by simp
  have h2: "unat (1 :: u64) + unat (4 :: u64) < 2 ^ 64" by simp
  have s: "(4 :: u64) \<noteq> 0" by simp
  have ft: "unat (4 :: u64) * (unat (6 :: u64) + unat (4 :: u64)) < 2 ^ 64" by simp
  have f: "m_size example_source = 5" "m_buf example_source = 128" "m_buf example_owned = 16"
    "ptr example_reply = 4096" "m_capacity example_owned = 8" "m_veloxRef example_owned = None"
    "m_size example_owned = 3" "m_pool example_owned = 1"
    by (simp_all add: example_source_def example_owned_def example_reply_def)
  have inv: "invariant example_owned" by (simp add: invariant_def example_owned_def)
  note t = append_buffer_spec [OF h1 s ft, where r = example_reply
      and src = example_source and b = example_owned and w = example_world]
  have a: "append_buffer 4 example_reply 6 example_source 3 4 (example_owned, example_world)
     = Inl InsufficientSource"
    using t [THEN conjunct1] f by simp
  note u = append_buffer_spec [OF h2 s ft, where r = example_reply
      and src = example_source and b = example_owned and w = example_world]
  have "\<not> (\<exists>e. append_buffer 4 example_reply 6 example_source 1 4 (example_owned, example_world)
      = Inl e)"
    using u [THEN conjunct2, THEN conjunct1] f by simp
  then obtain b' w' where
    X: "append_buffer 4 example_reply 6 example_source 1 4 (example_owned, example_world)
      = Inr (b', w')"
    by (cases "append_buffer 4 example_reply 6 example_source 1 4 (example_owned, example_world)")
      auto
  note ur = u [THEN conjunct2, THEN conjunct2, rule_format, OF X]
  note u_cap = ur [THEN conjunct2, THEN conjunct1]
    and u_size = ur [THEN conjunct2, THEN conjunct2, THEN conjunct1]
    and u_buf = ur [THEN conjunct2, THEN conjunct2, THEN conjunct2, THEN conjunct1]
    and u_calls = ur [THEN conjunct2, THEN conjunct2, THEN conjunct2, THEN conjunct2, THEN conjunct2, THEN conjunct2, THEN conjunct2, THEN conjunct1]
    and u_copy = ur [THEN conjunct2, THEN conjunct2, THEN conjunct2, THEN conjunct2, THEN conjunct2, THEN conjunct2, THEN conjunct2, THEN conjunct2, THEN conjunct1]
    and u_other = ur [THEN conjunct2, THEN conjunct2, THEN conjunct2, THEN conjunct2, THEN conjunct2, THEN conjunct2, THEN conjunct2, THEN conjunct2, THEN conjunct2, THEN conjunct1]
    and u_kept = ur [THEN conjunct2, THEN conjunct2, THEN conjunct2, THEN conjunct2, THEN conjunct2, THEN conjunct2, THEN conjunct2, THEN conjunct2, THEN conjunct2, THEN conjunct2]
  have p1: "unat (m_capacity b') = 10" using u_cap f by simp
  have p2: "unat (m_size b') = 10" using u_size by simp
  have p3: "m_buf b' = 4096" using u_buf f by simp
  have p4: "calls w' = [(1, Reallocate 16 32 40)]"
    using u_calls f by (simp add: example_world_def sizeInBytes_def capacityInBytes_def)
  have c: "\<forall>j. j < unat (4 :: u64) \<longrightarrow> heap w' (m_buf b') (unat (6 :: u64) + j)
        = heap example_world (m_buf example_source) (unat (1 :: u64) + j)"
    using u_copy f by simp
  have p5: "heap w' (m_buf b') 8 = 131"
    using c [rule_format, of 2] f by (simp add: example_world_def)
  have k: "\<forall>i. i < unat (m_size example_owned) \<and>
        (i < unat (6 :: u64) \<or> unat (6 :: u64) + unat (4 :: u64) \<le> i) \<longrightarrow>
        heap w' (m_buf b') i = heap example_world (m_buf example_owned) i"
    using u_kept inv by simp
  have p6: "heap w' (m_buf b') 1 = 17"
    using k [rule_format, of 1] f by (simp add: example_world_def)
  have p7: "heap w' 128 3 = 131"
    using u_other [rule_format, of 128] p3 by (simp add: example_world_def)
  note v = append_buffer_spec [OF h2 s ft, where r = "example_reply\<lparr>ptr := 0\<rparr>"
      and src = example_source and b = example_owned and w = example_world]
  have n: "\<exists>e. append_buffer 4 (example_reply\<lparr>ptr := 0\<rparr>) 6 example_source 1 4
           (example_owned, example_world) = Inl e"
    using v [THEN conjunct2, THEN conjunct1] f by simp
  show ?thesis using h1 h2 s ft f inv a X p1 p2 p3 p4 p5 p6 p7 n by (simp add: example_appended_def)
qed

text \<open>
  C7 as stated fails in the direction "only if": with enough elements in \<open>otherBuffer\<close>,
  the call still throws on a wrapped buffer that would have to grow, and on an empty
  buffer with a null data pointer, where it appends nothing. It also fails where the
  sizes wrap around. \<^verbatim>\<open>append(18446744073709551615, otherBuffer, 0, 2)\<close> on a buffer of
  capacity 8 computes \<open>offset + count = 1\<close> and returns with the length 1 and the capacity
  8. \<^verbatim>\<open>append(0, otherBuffer, 18446744073709551615, 2)\<close> with 5 elements in \<open>otherBuffer\<close>
  computes \<open>otherOffset + count = 1\<close> and returns. With elements of 4 bytes,
  \<^verbatim>\<open>append(4611686018427387904, otherBuffer, 0, 1)\<close> sets the capacity to \<open>2 ^ 62 + 1\<close>
  after reallocating the block to 4 bytes, the wrapped size in bytes.
\<close>

theorem append_buffer_counterexample:
  "\<not> m_size example_source < 0 + 3 \<and>
   append_buffer 4 example_reply 2 example_source 0 3 (wrap 4 example_buffer, example_world)
     = Inl ReferencedBuffer \<and>
   \<not> m_size example_source < 0 + 0 \<and>
   append_buffer 4 example_reply 0 example_source 0 0 (example_empty, example_world)
     = Inl NullBuffer \<and>
   map_sum id (\<lambda>bw. (m_size (fst bw), m_capacity (fst bw)))
     (append_buffer 4 example_reply 18446744073709551615 example_source 0 2
        (example_owned, example_world)) = Inr (1, 8) \<and>
   unat (m_size example_source) < unat (18446744073709551615 :: u64) + unat (2 :: u64) \<and>
   map_sum id (m_size \<circ> fst)
     (append_buffer 4 example_reply 0 example_source 18446744073709551615 2
        (example_owned, example_world)) = Inr 2 \<and>
   map_sum id (\<lambda>bw. (m_capacity (fst bw), calls (snd bw)))
     (append_buffer 4 example_reply 4611686018427387904 example_source 0 1
        (example_owned, example_world))
     = Inr (4611686018427387905, [(1, Reallocate 16 32 4)])"
  by (simp add: append_buffer_def append_ptr_def unsafeAppend_def reserve_def wrap_def Let_def
      example_source_def example_buffer_def example_empty_def example_owned_def
      example_reply_def example_world_def sizeInBytes_def capacityInBytes_def)

text \<open>
  C2, as the code has it. After construction, after \<^verbatim>\<open>wrap\<close> of a buffer with non-null
  memory, and after every call of a sequence of operations (after each of its prefixes
  that returns), as long as no size of the sequence wraps around \<open>2 ^ 64\<close>: the length
  is at most the capacity, and the capacity is 0 when the data pointer is null. The
  converse, a null data pointer when the capacity is 0, is not kept.
\<close>

theorem invariant_preserved:
  assumes "s \<noteq> 0"
  shows
    "(DataBuffer_new s r pool n w = Inr bw0 \<longrightarrow> invariant (fst bw0)) \<and>
     (as_ptr buffer \<noteq> 0 \<longrightarrow> invariant (wrap s buffer)) \<and>
     (invariant (fst bw) \<and> all_fit s cs bw \<and> run s (take k cs) bw = Inr bw' \<longrightarrow>
        invariant (fst bw'))"
proof (intro conjI impI)
  assume "DataBuffer_new s r pool n w = Inr bw0"
  then show "invariant (fst bw0)" using new_invariant [of s r pool n w "fst bw0" "snd bw0"] by simp
next
  assume "as_ptr buffer \<noteq> 0"
  then show "invariant (wrap s buffer)" by (rule wrap_invariant)
next
  assume a: "invariant (fst bw) \<and> all_fit s cs bw \<and> run s (take k cs) bw = Inr bw'"
  then have "all_fit s (take k cs) bw" by (simp add: all_fit_take)
  then show "invariant (fst bw')" using a run_invariant [OF _ assms, of bw "take k cs" bw'] by simp
qed


theorem invariant_preserved_witness:
  "(4 :: u64) \<noteq> 0 \<and>
   DataBuffer_new 4 example_reply 1 3 example_world
     = Inr (projr (DataBuffer_new 4 example_reply 1 3 example_world)) \<and>
   invariant (fst (projr (DataBuffer_new 4 example_reply 1 3 example_world))) \<and>
   as_ptr example_buffer \<noteq> 0 \<and> invariant (wrap 4 example_buffer) \<and>
   invariant (fst (example_empty, example_world)) \<and>
   all_fit 4 example_calls (example_empty, example_world) \<and>
   run 4 (take 3 example_calls) (example_empty, example_world)
     = Inr (projr (run 4 (take 3 example_calls) (example_empty, example_world))) \<and>
   invariant (fst (projr (run 4 (take 3 example_calls) (example_empty, example_world))))"
proof -
  have h: "(4 :: u64) \<noteq> 0" by simp
  have n: "DataBuffer_new 4 example_reply 1 3 example_world
     = Inr (projr (DataBuffer_new 4 example_reply 1 3 example_world))"
    by (simp add: DataBuffer_new_def Let_def example_reply_def)
  have p: "as_ptr example_buffer \<noteq> 0" by (simp add: example_buffer_def)
  have i: "invariant (fst (example_empty, example_world))"
    by (simp add: invariant_def example_empty_def)
  show ?thesis
    using invariant_preserved [OF h, of example_reply 1 3 example_world
        "projr (DataBuffer_new 4 example_reply 1 3 example_world)" example_buffer
        "(example_empty, example_world)" example_calls 3
        "projr (run 4 (take 3 example_calls) (example_empty, example_world))"]
      h n p i example_fit example_run3
    by simp
qed

text \<open>
  C2 as stated fails for the second invariant: constructing with size 0 keeps the
  non-null pointer that the pool returns for zero bytes, and wrapping a buffer of three
  bytes as \<^verbatim>\<open>int32_t\<close> keeps its pointer, both with capacity 0.
\<close>

theorem invariant_counterexample:
  "map_sum id (spec_invariant \<circ> fst) (DataBuffer_new 4 example_reply 1 0 example_world)
     = Inr False \<and>
   \<not> spec_invariant (wrap 4 example_short_buffer)"
  by (simp add: DataBuffer_new_def wrap_def Let_def spec_invariant_def example_reply_def
      example_short_buffer_def)

end
